theory Spec2Isabelle
  imports Main "HOL-Library.Word"
begin

unbundle bit_operations_syntax

section \<open>Common types\<close>

text \<open>
  \<open>frame_id_t\<close> and \<open>page_id_t\<close> are C++ \<open>int\<close>; they are modelled as \<open>int\<close>
  (no arithmetic that could overflow is done on them except \<open>next_page_id_++\<close>).
  \<open>size_t\<close> counters on which the code subtracts are 64-bit words.
\<close>

type_synonym frame_id_t = int
type_synonym page_id_t = int

definition INVALID_PAGE_ID :: page_id_t where
  "INVALID_PAGE_ID = -1"

definition HEADER_PAGE_ID :: page_id_t where
  "HEADER_PAGE_ID = 0"

section \<open>LRU-K replacer (src/buffer/lru\_k\_replacer.cpp)\<close>

text \<open>
  The per-frame descriptor. Its iterator \<open>pos_\<close> always designates the node of the
  frame in the list the frame was last put into; \<open>list.erase(pos_)\<close> is modelled by
  removing the frame id from the list that the code names. When the node is in the
  other list (which happens with \<open>k < 2\<close> only), the call erases through an iterator
  of another container, which is undefined: the error \<open>InvalidIterator\<close>.
\<close>

record Entry =
  hint_count :: nat
  is_evictable :: bool

text \<open>
  The declaration of the descriptor (lru\_k\_replacer.h) is not among the sources, so
  the value that a freshly created descriptor gives to \<open>is_evictable_\<close> is a
  parameter \<open>ev0\<close> of the model. \<open>hint_count_\<close> starts at 0: the code tests
  \<open>++hint_count_ == 1\<close> to recognise the first access.
\<close>

definition new_entry :: "bool \<Rightarrow> Entry" where
  "new_entry ev0 = \<lparr>hint_count = 0, is_evictable = ev0\<rparr>"

record LRUKReplacer =
  replacer_size :: nat
  replacer_k :: nat
  curr_size :: "64 word"
  inf_list :: "frame_id_t list"
  kth_list :: "frame_id_t list"
  entries :: "frame_id_t \<rightharpoonup> Entry"

datatype error = InvalidArgument | LogicError | BadFetch page_id_t | BadCast | OutOfRange | Overflow
  | InvalidIterator

definition LRUKReplacer_init :: "nat \<Rightarrow> nat \<Rightarrow> LRUKReplacer" where
  "LRUKReplacer_init num_frames k =
     \<lparr>replacer_size = num_frames, replacer_k = k, curr_size = 0, inf_list = [], kth_list = [],
      entries = Map.empty\<rparr>"

text \<open>\<open>entries_[f]\<close>: \<open>std::unordered_map::operator[]\<close> creates the descriptor when absent.\<close>

definition entries_at :: "bool \<Rightarrow> (frame_id_t \<rightharpoonup> Entry) \<Rightarrow> frame_id_t \<Rightarrow> (frame_id_t \<rightharpoonup> Entry) \<times> Entry" where
  "entries_at ev0 es f =
     (case es f of Some e \<Rightarrow> (es, e) | None \<Rightarrow> (es(f \<mapsto> new_entry ev0), new_entry ev0))"

text \<open>
  The reverse scan of \<open>Evict\<close>: the argument is the list from its back to its front; the
  result is the first evictable frame met and the scanned list with that node erased
  (still back to front).
\<close>

fun scan_back :: "bool \<Rightarrow> (frame_id_t \<rightharpoonup> Entry) \<Rightarrow> frame_id_t list
    \<Rightarrow> (frame_id_t \<rightharpoonup> Entry) \<times> (frame_id_t \<times> frame_id_t list) option" where
  "scan_back ev0 es [] = (es, None)"
| "scan_back ev0 es (f # fs) =
     (let (es1, e) = entries_at ev0 es f in
      if is_evictable e then (es1, Some (f, fs))
      else (case scan_back ev0 es1 fs of
              (es2, None) \<Rightarrow> (es2, None)
            | (es2, Some (g, rest)) \<Rightarrow> (es2, Some (g, f # rest))))"

definition Evict :: "bool \<Rightarrow> LRUKReplacer \<Rightarrow> LRUKReplacer \<times> frame_id_t option" where
  "Evict ev0 r =
     (case scan_back ev0 (entries r) (rev (inf_list r)) of
        (es1, Some (f, rest)) \<Rightarrow>
          (r\<lparr>inf_list := rev rest, curr_size := curr_size r - 1, entries := es1(f := None)\<rparr>, Some f)
      | (es1, None) \<Rightarrow>
          (case scan_back ev0 es1 (rev (kth_list r)) of
             (es2, Some (f, rest)) \<Rightarrow>
               (r\<lparr>kth_list := rev rest, curr_size := curr_size r - 1, entries := es2(f := None)\<rparr>, Some f)
           | (es2, None) \<Rightarrow> (r\<lparr>entries := es2\<rparr>, None)))"

definition RecordAccess :: "bool \<Rightarrow> LRUKReplacer \<Rightarrow> frame_id_t \<Rightarrow> error + LRUKReplacer" where
  "RecordAccess ev0 r f =
     (if f > int (replacer_size r) then Inl InvalidArgument
      else
        let (es1, e) = entries_at ev0 (entries r) f;
            nums_hint = hint_count e + 1;
            r1 = r\<lparr>entries := es1(f \<mapsto> e\<lparr>hint_count := nums_hint\<rparr>)\<rparr>
        in if nums_hint = 1 then
             Inr (r1\<lparr>curr_size := curr_size r1 + 1, inf_list := f # inf_list r1\<rparr>)
           else if nums_hint = replacer_k r1 then
             (if f \<in> set (inf_list r1)
              then Inr (r1\<lparr>inf_list := remove1 f (inf_list r1), kth_list := f # kth_list r1\<rparr>)
              else Inl InvalidIterator)
           else if nums_hint > replacer_k r1 then
             (if f \<in> set (kth_list r1)
              then Inr (r1\<lparr>kth_list := f # remove1 f (kth_list r1)\<rparr>)
              else Inl InvalidIterator)
           else Inr r1)"

definition SetEvictable :: "LRUKReplacer \<Rightarrow> frame_id_t \<Rightarrow> bool \<Rightarrow> error + LRUKReplacer" where
  "SetEvictable r f set_evictable =
     (if f > int (replacer_size r) then Inl InvalidArgument
      else case entries r f of
        None \<Rightarrow> Inr r
      | Some e \<Rightarrow>
          if is_evictable e = set_evictable then Inr r
          else if \<not> set_evictable then
            Inr (r\<lparr>curr_size := curr_size r - 1,
                   entries := (entries r)(f \<mapsto> e\<lparr>is_evictable := False\<rparr>)\<rparr>)
          else
            Inr (r\<lparr>curr_size := curr_size r + 1,
                   entries := (entries r)(f \<mapsto> e\<lparr>is_evictable := True\<rparr>)\<rparr>))"

definition Remove_frame :: "LRUKReplacer \<Rightarrow> frame_id_t \<Rightarrow> error + LRUKReplacer" where
  "Remove_frame r f =
     (if f > int (replacer_size r) then Inl InvalidArgument
      else case entries r f of
        None \<Rightarrow> Inr r
      | Some e \<Rightarrow>
          if \<not> is_evictable e then Inr r
          else if hint_count e < replacer_k r then
            (if f \<in> set (inf_list r)
             then Inr (r\<lparr>inf_list := remove1 f (inf_list r), curr_size := curr_size r - 1,
                         entries := (entries r)(f := None)\<rparr>)
             else Inl InvalidIterator)
          else
            (if f \<in> set (kth_list r)
             then Inr (r\<lparr>kth_list := remove1 f (kth_list r), curr_size := curr_size r - 1,
                         entries := (entries r)(f := None)\<rparr>)
             else Inl InvalidIterator))"

definition Size :: "LRUKReplacer \<Rightarrow> 64 word" where
  "Size r = curr_size r"

text \<open>Running a list of calls that may throw: the first exception ends the run.\<close>

fun record_all :: "bool \<Rightarrow> LRUKReplacer \<Rightarrow> frame_id_t list \<Rightarrow> error + LRUKReplacer" where
  "record_all ev0 r [] = Inr r"
| "record_all ev0 r (f # fs) =
     (case RecordAccess ev0 r f of Inl e \<Rightarrow> Inl e | Inr r1 \<Rightarrow> record_all ev0 r1 fs)"

fun set_all_evictable :: "LRUKReplacer \<Rightarrow> frame_id_t list \<Rightarrow> error + LRUKReplacer" where
  "set_all_evictable r [] = Inr r"
| "set_all_evictable r (f # fs) =
     (case SetEvictable r f True of Inl e \<Rightarrow> Inl e | Inr r1 \<Rightarrow> set_all_evictable r1 fs)"

fun evict_n :: "bool \<Rightarrow> nat \<Rightarrow> LRUKReplacer \<Rightarrow> LRUKReplacer \<times> frame_id_t option list" where
  "evict_n ev0 0 r = (r, [])"
| "evict_n ev0 (Suc n) r =
     (case Evict ev0 r of (r1, v) \<Rightarrow> (case evict_n ev0 n r1 of (r2, vs) \<Rightarrow> (r2, v # vs)))"

text \<open>
  The scenario of the specification: a replacer for \<open>n\<close> frames with \<open>k = 2\<close>, the
  accesses 1,2,3,1,2,3,1,2, then all three frames marked evictable, then three evictions.
  The result is the list of evicted frames and \<open>Size()\<close> afterwards.
\<close>

definition lruk_scenario :: "bool \<Rightarrow> nat \<Rightarrow> error + (frame_id_t option list \<times> 64 word)" where
  "lruk_scenario ev0 n =
     (case record_all ev0 (LRUKReplacer_init n 2) [1, 2, 3, 1, 2, 3, 1, 2] of
        Inl e \<Rightarrow> Inl e
      | Inr r1 \<Rightarrow>
          (case set_all_evictable r1 [1, 2, 3] of
             Inl e \<Rightarrow> Inl e
           | Inr r2 \<Rightarrow> (case evict_n ev0 3 r2 of (r3, vs) \<Rightarrow> Inr (vs, Size r3))))"

section \<open>Extendible hash table (src/container/hash/extendible\_hash\_table.cpp)\<close>

text \<open>
  A bucket: its capacity \<open>size_\<close>, its local depth \<open>depth_\<close> and its pairs \<open>list_\<close> in
  insertion order.
\<close>

record ('k, 'v) Bucket =
  b_size :: nat
  b_depth :: nat
  b_list :: "('k \<times> 'v) list"

definition Bucket_init :: "nat \<Rightarrow> nat \<Rightarrow> ('k, 'v) Bucket" where
  "Bucket_init array_size depth = \<lparr>b_size = array_size, b_depth = depth, b_list = []\<rparr>"

text \<open>
  Modelled from the spec: \<open>Bucket::IsFull\<close> is defined in extendible\_hash\_table.h,
  which is not among the sources. The specification lets a bucket hold at most
  \<open>bucket_size\<close> pairs and splits it when it is full: a bucket is full when it holds as
  many pairs as its capacity.
\<close>

definition IsFull :: "('k, 'v) Bucket \<Rightarrow> bool" where
  "IsFull b = (length (b_list b) = b_size b)"

fun list_find :: "('k \<times> 'v) list \<Rightarrow> 'k \<Rightarrow> 'v option" where
  "list_find [] key = None"
| "list_find ((k, v) # xs) key = (if k = key then Some v else list_find xs key)"

definition Bucket_Find :: "('k, 'v) Bucket \<Rightarrow> 'k \<Rightarrow> 'v option" where
  "Bucket_Find b key = list_find (b_list b) key"

fun list_erase :: "('k \<times> 'v) list \<Rightarrow> 'k \<Rightarrow> ('k \<times> 'v) list \<times> bool" where
  "list_erase [] key = ([], False)"
| "list_erase ((k, v) # xs) key =
     (if k = key then (xs, True)
      else (case list_erase xs key of (ys, r) \<Rightarrow> ((k, v) # ys, r)))"

definition Bucket_Remove :: "('k, 'v) Bucket \<Rightarrow> 'k \<Rightarrow> ('k, 'v) Bucket \<times> bool" where
  "Bucket_Remove b key =
     (if b_list b = [] then (b, False)
      else (case list_erase (b_list b) key of (ys, r) \<Rightarrow> (b\<lparr>b_list := ys\<rparr>, r)))"

fun list_assign :: "('k \<times> 'v) list \<Rightarrow> 'k \<Rightarrow> 'v \<Rightarrow> ('k \<times> 'v) list option" where
  "list_assign [] key val = None"
| "list_assign ((k, v) # xs) key val =
     (if k = key then Some ((k, val) # xs)
      else map_option ((#) (k, v)) (list_assign xs key val))"

definition Bucket_Insert :: "('k, 'v) Bucket \<Rightarrow> 'k \<Rightarrow> 'v \<Rightarrow> ('k, 'v) Bucket \<times> bool" where
  "Bucket_Insert b key val =
     (case list_assign (b_list b) key val of
        Some ys \<Rightarrow> (b\<lparr>b_list := ys\<rparr>, True)
      | None \<Rightarrow>
          if \<not> IsFull b then (b\<lparr>b_list := b_list b @ [(key, val)]\<rparr>, True)
          else (b, False))"

text \<open>
  The directory is a vector of \<open>shared_ptr<Bucket>\<close>: several slots may hold the same
  bucket, and a change made through one slot is seen through the others. The buckets
  therefore live in a store (\<open>bstore\<close>), the directory holds positions in the store, and
  \<open>make_shared\<close> appends to the store. A bucket that no slot refers to any more stays
  in the store, unused.

  \<open>std::hash<K>\<close> belongs to the C++ library and is the parameter \<open>h\<close>; its values are
  \<open>size_t\<close>. Depths and masks are C++ \<open>int\<close> (32 bits): \<open>1 << n\<close> fits an \<open>int\<close> only
  for \<open>n < 31\<close>. For \<open>n \<ge> 32\<close> the shift is undefined, and for \<open>n = 31\<close> the
  subtraction \<open>(1 << n) - 1\<close>, which both uses of the shift evaluate, overflows: the
  shift by \<open>n \<ge> 31\<close> is the error \<open>Overflow\<close>. Directory indices are
  \<open>size_t\<close>; they stay below \<open>dir_.size() + localmask\<close>, far from \<open>2^64\<close>. The counter
  \<open>num_buckets_\<close> grows by one per split and stays below \<open>2^31\<close> as long as no depth
  exceeds 31.
\<close>

record ('k, 'v) ExtendibleHashTable =
  global_depth :: nat
  bucket_size :: nat
  num_buckets :: nat
  dir :: "nat list"
  bstore :: "('k, 'v) Bucket list"

definition ExtendibleHashTable_init :: "nat \<Rightarrow> ('k, 'v) ExtendibleHashTable" where
  "ExtendibleHashTable_init bsz =
     \<lparr>global_depth = 0, bucket_size = bsz, num_buckets = 1, dir = [0],
      bstore = [Bucket_init bsz 0]\<rparr>"

text \<open>\<open>1 << n\<close> in a 32-bit \<open>int\<close>.\<close>

definition shift_left_one :: "nat \<Rightarrow> error + nat" where
  "shift_left_one n = (if n < 31 then Inr (push_bit n 1) else Inl Overflow)"

definition IndexOf :: "('k \<Rightarrow> nat) \<Rightarrow> ('k, 'v) ExtendibleHashTable \<Rightarrow> 'k \<Rightarrow> error + nat" where
  "IndexOf h t key =
     (case shift_left_one (global_depth t) of
        Inl e \<Rightarrow> Inl e
      | Inr m \<Rightarrow> (let mask = m - 1 in Inr (h key AND mask)))"

text \<open>\<open>dir_[i]\<close> dereferenced.\<close>

definition bucket_at :: "('k, 'v) ExtendibleHashTable \<Rightarrow> nat \<Rightarrow> ('k, 'v) Bucket" where
  "bucket_at t i = bstore t ! (dir t ! i)"

definition GetGlobalDepth :: "('k, 'v) ExtendibleHashTable \<Rightarrow> nat" where
  "GetGlobalDepth t = global_depth t"

definition GetLocalDepth :: "('k, 'v) ExtendibleHashTable \<Rightarrow> nat \<Rightarrow> nat" where
  "GetLocalDepth t dir_index = b_depth (bucket_at t dir_index)"

definition GetNumBuckets :: "('k, 'v) ExtendibleHashTable \<Rightarrow> nat" where
  "GetNumBuckets t = num_buckets t"

definition Find :: "('k \<Rightarrow> nat) \<Rightarrow> ('k, 'v) ExtendibleHashTable \<Rightarrow> 'k \<Rightarrow> error + 'v option" where
  "Find h t key =
     (case IndexOf h t key of
        Inl e \<Rightarrow> Inl e
      | Inr idx \<Rightarrow> Inr (Bucket_Find (bucket_at t idx) key))"

definition Remove :: "('k \<Rightarrow> nat) \<Rightarrow> ('k, 'v) ExtendibleHashTable \<Rightarrow> 'k
    \<Rightarrow> error + ('k, 'v) ExtendibleHashTable \<times> bool" where
  "Remove h t key =
     (case IndexOf h t key of
        Inl e \<Rightarrow> Inl e
      | Inr idx \<Rightarrow>
          (case Bucket_Remove (bucket_at t idx) key of
             (b, r) \<Rightarrow> Inr (t\<lparr>bstore := (bstore t)[dir t ! idx := b]\<rparr>, r)))"

definition Expansion :: "('k, 'v) ExtendibleHashTable \<Rightarrow> ('k, 'v) ExtendibleHashTable" where
  "Expansion t = t\<lparr>dir := dir t @ dir t, global_depth := global_depth t + 1\<rparr>"

text \<open>The first loop of \<open>RedistributeBucket\<close>: the pairs of the old bucket go to \<open>b0\<close> or \<open>b1\<close>.\<close>

fun distribute :: "('k \<Rightarrow> nat) \<Rightarrow> nat \<Rightarrow> ('k \<times> 'v) list \<Rightarrow> ('k, 'v) Bucket \<Rightarrow> ('k, 'v) Bucket
    \<Rightarrow> ('k, 'v) Bucket \<times> ('k, 'v) Bucket" where
  "distribute h localmask [] b0 b1 = (b0, b1)"
| "distribute h localmask ((k, v) # xs) b0 b1 =
     (if h k AND localmask \<noteq> 0
      then distribute h localmask xs b0 (fst (Bucket_Insert b1 k v))
      else distribute h localmask xs (fst (Bucket_Insert b0 k v)) b1)"

text \<open>
  The second loop: every slot \<open>i\<close>, \<open>i + localmask\<close>, ... below the directory size is
  pointed to \<open>b1\<close> or \<open>b0\<close> by the bit \<open>localmask\<close> of its index. (With \<open>localmask = 0\<close>
  the loop of the code would not advance; \<open>1 << old_depth\<close> is never 0, and the test
  \<open>0 < localmask\<close> only makes the recursion well-founded.)
\<close>

function redirect :: "nat \<Rightarrow> nat \<Rightarrow> nat \<Rightarrow> nat \<Rightarrow> nat list \<Rightarrow> nat list" where
  "redirect localmask p0 p1 i d =
     (if i < length d \<and> 0 < localmask
      then redirect localmask p0 p1 (i + localmask)
             (d[i := (if i AND localmask \<noteq> 0 then p1 else p0)])
      else d)"
  by pat_completeness auto
termination
  by (relation "measure (\<lambda>(localmask, p0, p1, i, d). length d - i)")
    (auto intro!: diff_less_mono2)

declare redirect.simps [simp del]

definition RedistributeBucket :: "('k \<Rightarrow> nat) \<Rightarrow> ('k, 'v) ExtendibleHashTable \<Rightarrow> nat \<Rightarrow> 'k
    \<Rightarrow> error + ('k, 'v) ExtendibleHashTable" where
  "RedistributeBucket h t bucket key =
     (let old_depth = b_depth (bstore t ! bucket);
          p0 = length (bstore t);
          p1 = length (bstore t) + 1
      in case shift_left_one old_depth of
           Inl e \<Rightarrow> Inl e
         | Inr localmask \<Rightarrow>
             (let (b0, b1) = distribute h localmask (b_list (bstore t ! bucket))
                               (Bucket_init (bucket_size t) (old_depth + 1))
                               (Bucket_init (bucket_size t) (old_depth + 1))
              in Inr (t\<lparr>num_buckets := num_buckets t + 1,
                        bstore := bstore t @ [b0, b1],
                        dir := redirect localmask p0 p1 (h key AND (localmask - 1)) (dir t)\<rparr>)))"

text \<open>
  The \<open>while (dir_[idx]->IsFull())\<close> loop of \<open>Insert\<close>, with the variable \<open>idx\<close> as
  argument; it returns the table and \<open>idx\<close>. Nothing in the code bounds the number of
  its rounds, so it is a partial function: \<open>None\<close> is a loop that never ends,
  \<open>Some (Inl Overflow)\<close> a round that shifts too far.
\<close>

partial_function (option) Insert_loop :: "('k \<Rightarrow> nat) \<Rightarrow> ('k, 'v) ExtendibleHashTable \<Rightarrow> 'k
    \<Rightarrow> nat \<Rightarrow> (error + ('k, 'v) ExtendibleHashTable \<times> nat) option" where
  "Insert_loop h t key idx =
     (if IsFull (bucket_at t idx) then
        (let local_depth = b_depth (bucket_at t idx);
             t1 = (if local_depth = global_depth t then Expansion t else t)
         in case RedistributeBucket h t1 (dir t1 ! idx) key of
              Inl e \<Rightarrow> Some (Inl e)
            | Inr t2 \<Rightarrow>
                (case IndexOf h t2 key of
                   Inl e \<Rightarrow> Some (Inl e)
                 | Inr idx2 \<Rightarrow> Insert_loop h t2 key idx2))
      else Some (Inr (t, idx)))"

declare Insert_loop.simps [code]

definition Insert :: "('k \<Rightarrow> nat) \<Rightarrow> ('k, 'v) ExtendibleHashTable \<Rightarrow> 'k \<Rightarrow> 'v
    \<Rightarrow> (error + ('k, 'v) ExtendibleHashTable) option" where
  "Insert h t key val =
     (case IndexOf h t key of
        Inl e \<Rightarrow> Some (Inl e)
      | Inr idx \<Rightarrow>
          (case Bucket_Find (bucket_at t idx) key of
             Some old \<Rightarrow>
               Some (Inr (t\<lparr>bstore := (bstore t)[dir t ! idx :=
                                        fst (Bucket_Insert (bucket_at t idx) key val)]\<rparr>))
           | None \<Rightarrow>
               (case Insert_loop h t key idx of
                  None \<Rightarrow> None
                | Some (Inl e) \<Rightarrow> Some (Inl e)
                | Some (Inr (t1, idx1)) \<Rightarrow>
                    Some (Inr (t1\<lparr>bstore := (bstore t1)[dir t1 ! idx1 :=
                                   fst (Bucket_Insert (bucket_at t1 idx1) key val)]\<rparr>)))))"

text \<open>
  Sequences of table operations; a run ends at the first call that does not return
  (\<open>None\<close>) or overflows.
\<close>

datatype ('k, 'v) ht_op = HInsert 'k 'v | HRemove 'k

fun ht_run :: "('k \<Rightarrow> nat) \<Rightarrow> ('k, 'v) ExtendibleHashTable \<Rightarrow> ('k, 'v) ht_op list
    \<Rightarrow> (error + ('k, 'v) ExtendibleHashTable) option" where
  "ht_run h t [] = Some (Inr t)"
| "ht_run h t (HInsert k v # ops) =
     (case Insert h t k v of
        Some (Inr t1) \<Rightarrow> ht_run h t1 ops
      | other \<Rightarrow> other)"
| "ht_run h t (HRemove k # ops) =
     (case Remove h t k of
        Inl e \<Rightarrow> Some (Inl e)
      | Inr (t1, r) \<Rightarrow> ht_run h t1 ops)"

text \<open>
  The directory invariant: the directory has \<open>2 ^ global_depth\<close> slots, each holding a
  bucket of the store; no local depth exceeds the global depth; two slots hold the same
  bucket exactly when their indices agree on the low \<open>local_depth\<close> bits; and those bits
  are the bucket's distinguishing prefix: the low bits of the hash value of every key in
  the bucket.
\<close>

definition dir_inv :: "('k \<Rightarrow> nat) \<Rightarrow> ('k, 'v) ExtendibleHashTable \<Rightarrow> bool" where
  "dir_inv h t \<longleftrightarrow>
     length (dir t) = 2 ^ global_depth t \<and>
     (\<forall>i < length (dir t). dir t ! i < length (bstore t)) \<and>
     (\<forall>i < length (dir t). GetLocalDepth t i \<le> global_depth t) \<and>
     (\<forall>i < length (dir t). \<forall>j < length (dir t).
        (dir t ! i = dir t ! j) = (i mod 2 ^ GetLocalDepth t i = j mod 2 ^ GetLocalDepth t i)) \<and>
     (\<forall>i < length (dir t). \<forall>k \<in> fst ` set (b_list (bucket_at t i)).
        h k mod 2 ^ GetLocalDepth t i = i mod 2 ^ GetLocalDepth t i)"

text \<open>
  Every bucket of the directory has the capacity of the table, holds no more pairs than
  its capacity, and holds each key once.
\<close>

definition bucket_ok :: "nat \<Rightarrow> ('k, 'v) Bucket \<Rightarrow> bool" where
  "bucket_ok bsz b \<longleftrightarrow>
     b_size b = bsz \<and> length (b_list b) \<le> b_size b \<and> distinct (map fst (b_list b))"

definition table_inv :: "('k \<Rightarrow> nat) \<Rightarrow> ('k, 'v) ExtendibleHashTable \<Rightarrow> bool" where
  "table_inv h t \<longleftrightarrow>
     dir_inv h t \<and> (\<forall>i < length (dir t). bucket_ok (bucket_size t) (bucket_at t i))"

text \<open>
  For the proofs only: the functions that the code computes as long as no shift
  overflows, written over unbounded natural numbers. They are not the code's functions;
  the lemmas \<open>IndexOf_eq\<close>, \<open>Find_eq\<close>, \<open>Remove_eq\<close>, \<open>RedistributeBucket_eq\<close>,
  \<open>Insert_loop_agrees\<close> and \<open>Insert_agrees\<close> relate them to the functions above, and
  the claims are stated about the functions above.
\<close>

definition IndexOf_nat :: "('k \<Rightarrow> nat) \<Rightarrow> ('k, 'v) ExtendibleHashTable \<Rightarrow> 'k \<Rightarrow> nat" where
  "IndexOf_nat h t key = (let mask = push_bit (global_depth t) 1 - 1 in h key AND mask)"

definition Find_nat :: "('k \<Rightarrow> nat) \<Rightarrow> ('k, 'v) ExtendibleHashTable \<Rightarrow> 'k \<Rightarrow> 'v option" where
  "Find_nat h t key = Bucket_Find (bucket_at t (IndexOf_nat h t key)) key"

definition Remove_nat :: "('k \<Rightarrow> nat) \<Rightarrow> ('k, 'v) ExtendibleHashTable \<Rightarrow> 'k
    \<Rightarrow> ('k, 'v) ExtendibleHashTable \<times> bool" where
  "Remove_nat h t key =
     (let idx = IndexOf_nat h t key in
      case Bucket_Remove (bucket_at t idx) key of
        (b, r) \<Rightarrow> (t\<lparr>bstore := (bstore t)[dir t ! idx := b]\<rparr>, r))"

definition RedistributeBucket_nat :: "('k \<Rightarrow> nat) \<Rightarrow> ('k, 'v) ExtendibleHashTable \<Rightarrow> nat \<Rightarrow> 'k
    \<Rightarrow> ('k, 'v) ExtendibleHashTable" where
  "RedistributeBucket_nat h t bucket key =
     (let old_depth = b_depth (bstore t ! bucket);
          p0 = length (bstore t);
          p1 = length (bstore t) + 1;
          localmask = push_bit old_depth 1;
          (b0, b1) = distribute h localmask (b_list (bstore t ! bucket))
                       (Bucket_init (bucket_size t) (old_depth + 1))
                       (Bucket_init (bucket_size t) (old_depth + 1))
      in t\<lparr>num_buckets := num_buckets t + 1,
           bstore := bstore t @ [b0, b1],
           dir := redirect localmask p0 p1 (h key AND (localmask - 1)) (dir t)\<rparr>)"

partial_function (option) Insert_loop_nat :: "('k \<Rightarrow> nat) \<Rightarrow> ('k, 'v) ExtendibleHashTable \<Rightarrow> 'k
    \<Rightarrow> ('k, 'v) ExtendibleHashTable option" where
  "Insert_loop_nat h t key =
     (let idx = IndexOf_nat h t key in
      if IsFull (bucket_at t idx) then
        (let local_depth = b_depth (bucket_at t idx);
             t1 = (if local_depth = global_depth t then Expansion t else t)
         in Insert_loop_nat h (RedistributeBucket_nat h t1 (dir t1 ! idx) key) key)
      else Some t)"

text \<open>One round of the loop: the directory doubles if it has to, and the bucket of the key splits.\<close>

definition split_step :: "('k \<Rightarrow> nat) \<Rightarrow> ('k, 'v) ExtendibleHashTable \<Rightarrow> 'k
    \<Rightarrow> ('k, 'v) ExtendibleHashTable" where
  "split_step h t key =
     (let idx = IndexOf_nat h t key;
          local_depth = b_depth (bucket_at t idx);
          t1 = (if local_depth = global_depth t then Expansion t else t)
      in RedistributeBucket_nat h t1 (dir t1 ! idx) key)"

text \<open>The bucket that a key is routed to, with a pair of the bucket replaced or added.\<close>

definition set_target :: "('k \<Rightarrow> nat) \<Rightarrow> ('k, 'v) ExtendibleHashTable \<Rightarrow> 'k \<Rightarrow> ('k, 'v) Bucket
    \<Rightarrow> ('k, 'v) ExtendibleHashTable" where
  "set_target h t key b = t\<lparr>bstore := (bstore t)[dir t ! IndexOf_nat h t key := b]\<rparr>"

definition Insert_nat :: "('k \<Rightarrow> nat) \<Rightarrow> ('k, 'v) ExtendibleHashTable \<Rightarrow> 'k \<Rightarrow> 'v
    \<Rightarrow> ('k, 'v) ExtendibleHashTable option" where
  "Insert_nat h t key val =
     (let idx = IndexOf_nat h t key in
      case Bucket_Find (bucket_at t idx) key of
        Some old \<Rightarrow>
          Some (t\<lparr>bstore := (bstore t)[dir t ! idx := fst (Bucket_Insert (bucket_at t idx) key val)]\<rparr>)
      | None \<Rightarrow>
          (case Insert_loop_nat h t key of
             None \<Rightarrow> None
           | Some t1 \<Rightarrow>
               let idx1 = IndexOf_nat h t1 key in
               Some (t1\<lparr>bstore := (bstore t1)[dir t1 ! idx1 :=
                                   fst (Bucket_Insert (bucket_at t1 idx1) key val)]\<rparr>)))"

text \<open>The keys of the bucket that a key is routed to.\<close>

definition target_keys :: "('k \<Rightarrow> nat) \<Rightarrow> ('k, 'v) ExtendibleHashTable \<Rightarrow> 'k \<Rightarrow> 'k set" where
  "target_keys h t key = fst ` set (b_list (bucket_at t (IndexOf_nat h t key)))"

text \<open>
  \<open>std::hash<int>\<close> as common C++ libraries define it: the value itself, converted to
  \<open>size_t\<close> (64 bits).
\<close>

definition int_hash :: "int \<Rightarrow> nat" where
  "int_hash k = nat (k mod 2 ^ 64)"


definition example_ops :: "(int, int) ht_op list" where
  "example_ops = [HInsert 1 10, HInsert 2 20, HInsert 3 30, HRemove 2, HInsert 5 50]"

definition example_table :: "(int, int) ExtendibleHashTable" where
  "example_table =
     \<lparr>global_depth = 2, bucket_size = 2, num_buckets = 3, dir = [1, 3, 1, 4],
      bstore =
        [\<lparr>b_size = 2, b_depth = 0, b_list = [(1, 10), (2, 20)]\<rparr>,
         \<lparr>b_size = 2, b_depth = 1, b_list = []\<rparr>,
         \<lparr>b_size = 2, b_depth = 1, b_list = [(1, 10), (3, 30)]\<rparr>,
         \<lparr>b_size = 2, b_depth = 2, b_list = [(1, 10), (5, 50)]\<rparr>,
         \<lparr>b_size = 2, b_depth = 2, b_list = [(3, 30)]\<rparr>]\<rparr>"

section \<open>Buffer pool manager (src/buffer/buffer\_pool\_manager\_instance.cpp)\<close>

text \<open>
  A frame of the pool: the byte buffer \<open>data_\<close> and the metadata of page.h (which is not
  among the sources; the fields are those that the code reads and writes).
\<close>

type_synonym byte = "8 word"

record Page =
  data :: "byte list"
  page_id :: page_id_t
  pin_count :: int
  is_dirty :: bool

text \<open>
  Modelled from the spec: \<open>Page::ResetMemory\<close> (page.h) zeroes the buffer (``zero the
  buffer''); the buffer keeps its size.
\<close>

definition ResetMemory :: "Page \<Rightarrow> Page" where
  "ResetMemory p = p\<lparr>data := replicate (length (data p)) 0\<rparr>"

definition ResetPage :: "Page \<Rightarrow> Page" where
  "ResetPage p = (ResetMemory p)\<lparr>is_dirty := False, page_id := INVALID_PAGE_ID\<rparr>"

text \<open>
  The disk manager is an external collaborator: \<open>disk\<close> is the content that \<open>ReadPage\<close>
  delivers for each page id, and \<open>WritePage\<close> replaces it. The page table is the
  extendible hash table above, with \<open>std::hash<page_id_t>\<close> as parameter \<open>h\<close>; the
  replacer is the LRU-K replacer above, with parameter \<open>ev0\<close>.
\<close>

record BufferPoolManagerInstance =
  pool_size :: nat
  pages :: "Page list"
  page_table :: "(page_id_t, frame_id_t) ExtendibleHashTable"
  replacer :: LRUKReplacer
  free_list :: "frame_id_t list"
  next_page_id :: page_id_t
  disk :: "page_id_t \<Rightarrow> byte list"

text \<open>
  The constructor. The page size and the constant \<open>bucket_size_\<close> come from headers that
  are not among the sources and are parameters, as is the initial content of the disk.
\<close>

definition BufferPoolManagerInstance_init ::
    "nat \<Rightarrow> nat \<Rightarrow> nat \<Rightarrow> nat \<Rightarrow> (page_id_t \<Rightarrow> byte list) \<Rightarrow> BufferPoolManagerInstance" where
  "BufferPoolManagerInstance_init psize k bsz page_bytes dsk =
     \<lparr>pool_size = psize,
      pages = replicate psize
        \<lparr>data = replicate page_bytes 0, page_id = INVALID_PAGE_ID, pin_count = 0, is_dirty = False\<rparr>,
      page_table = ExtendibleHashTable_init bsz,
      replacer = LRUKReplacer_init psize k,
      free_list = map int [0 ..< psize],
      next_page_id = 0,
      disk = dsk\<rparr>"

text \<open>
  A call of the pool manager does not return (\<open>None\<close>, when the page table's \<open>Insert\<close>
  does not), fails (\<open>Some (Inl e)\<close>, when the replacer throws or erases through a wrong
  iterator, or when a shift of the page table overflows), or returns.
\<close>

type_synonym 'a outcome = "(error + 'a) option"

text \<open>\<open>pages_ + frame_id\<close>: the frame of an index.\<close>

definition frame :: "BufferPoolManagerInstance \<Rightarrow> frame_id_t \<Rightarrow> Page" where
  "frame s f = pages s ! nat f"

definition set_frame :: "BufferPoolManagerInstance \<Rightarrow> frame_id_t \<Rightarrow> Page \<Rightarrow> BufferPoolManagerInstance" where
  "set_frame s f p = s\<lparr>pages := (pages s)[nat f := p]\<rparr>"

text \<open>
  The block that \<open>NewPgImp\<close> and \<open>FetchPgImp\<close> share word for word: a frame from the
  free list, else a victim of the replacer, whose mapping leaves the page table and
  which is written back and reset if it is dirty. The result is the frame found, if any.
\<close>

definition find_replacement :: "(page_id_t \<Rightarrow> nat) \<Rightarrow> bool \<Rightarrow> BufferPoolManagerInstance
    \<Rightarrow> error + BufferPoolManagerInstance \<times> frame_id_t option" where
  "find_replacement h ev0 s =
     (case free_list s of
        f # fs \<Rightarrow> Inr (s\<lparr>free_list := fs\<rparr>, Some f)
      | [] \<Rightarrow>
          (case Evict ev0 (replacer s) of
             (r1, None) \<Rightarrow> Inr (s\<lparr>replacer := r1\<rparr>, None)
           | (r1, Some f) \<Rightarrow>
               let s1 = s\<lparr>replacer := r1\<rparr>;
                   page = frame s1 f
               in case Remove h (page_table s1) (page_id page) of
                    Inl e \<Rightarrow> Inl e
                  | Inr (pt, r) \<Rightarrow>
                      let s2 = s1\<lparr>page_table := pt\<rparr>
                      in if is_dirty page
                         then Inr (set_frame (s2\<lparr>disk := (disk s2)(page_id page := data page)\<rparr>) f
                                     (ResetPage page), Some f)
                         else Inr (s2, Some f)))"

text \<open>
  The tail that the three successful paths share: \<open>RecordAccess\<close>, \<open>SetEvictable(false)\<close>,
  \<open>pin_count_++\<close>.
\<close>

definition record_and_pin :: "bool \<Rightarrow> BufferPoolManagerInstance \<Rightarrow> frame_id_t
    \<Rightarrow> error + BufferPoolManagerInstance" where
  "record_and_pin ev0 s f =
     (case RecordAccess ev0 (replacer s) f of
        Inl e \<Rightarrow> Inl e
      | Inr r1 \<Rightarrow>
          (case SetEvictable r1 f False of
             Inl e \<Rightarrow> Inl e
           | Inr r2 \<Rightarrow>
               Inr (set_frame (s\<lparr>replacer := r2\<rparr>) f
                      ((frame s f)\<lparr>pin_count := pin_count (frame s f) + 1\<rparr>))))"

text \<open>\<open>NewPgImp\<close> returns the page id and the frame of the new page, or \<open>nullptr\<close> (\<open>None\<close>).\<close>

definition NewPgImp :: "(page_id_t \<Rightarrow> nat) \<Rightarrow> bool \<Rightarrow> BufferPoolManagerInstance
    \<Rightarrow> (BufferPoolManagerInstance \<times> (page_id_t \<times> frame_id_t) option) outcome" where
  "NewPgImp h ev0 s =
     (case find_replacement h ev0 s of
        Inl e \<Rightarrow> Some (Inl e)
      | Inr (s1, None) \<Rightarrow> Some (Inr (s1, None))
      | Inr (s1, Some f) \<Rightarrow>
          let pid = next_page_id s1;
              s2 = set_frame (s1\<lparr>next_page_id := next_page_id s1 + 1\<rparr>) f ((frame s1 f)\<lparr>page_id := pid\<rparr>)
          in (case Insert h (page_table s2) pid f of
                None \<Rightarrow> None
              | Some (Inl e) \<Rightarrow> Some (Inl e)
              | Some (Inr pt) \<Rightarrow>
                  (case record_and_pin ev0 (s2\<lparr>page_table := pt\<rparr>) f of
                     Inl e \<Rightarrow> Some (Inl e)
                   | Inr s3 \<Rightarrow> Some (Inr (s3, Some (pid, f))))))"

definition FetchPgImp :: "(page_id_t \<Rightarrow> nat) \<Rightarrow> bool \<Rightarrow> BufferPoolManagerInstance \<Rightarrow> page_id_t
    \<Rightarrow> (BufferPoolManagerInstance \<times> frame_id_t option) outcome" where
  "FetchPgImp h ev0 s pid =
     (case Find h (page_table s) pid of
        Inl e \<Rightarrow> Some (Inl e)
      | Inr (Some f) \<Rightarrow>
          (case record_and_pin ev0 s f of
             Inl e \<Rightarrow> Some (Inl e)
           | Inr s1 \<Rightarrow> Some (Inr (s1, Some f)))
      | Inr None \<Rightarrow>
          (case find_replacement h ev0 s of
             Inl e \<Rightarrow> Some (Inl e)
           | Inr (s1, None) \<Rightarrow> Some (Inr (s1, None))
           | Inr (s1, Some f) \<Rightarrow>
               let s2 = set_frame s1 f ((frame s1 f)\<lparr>data := disk s1 pid, page_id := pid\<rparr>)
               in (case Insert h (page_table s2) pid f of
                     None \<Rightarrow> None
                   | Some (Inl e) \<Rightarrow> Some (Inl e)
                   | Some (Inr pt) \<Rightarrow>
                       (case record_and_pin ev0 (s2\<lparr>page_table := pt\<rparr>) f of
                          Inl e \<Rightarrow> Some (Inl e)
                        | Inr s3 \<Rightarrow> Some (Inr (s3, Some f))))))"

definition UnpinPgImp :: "(page_id_t \<Rightarrow> nat) \<Rightarrow> BufferPoolManagerInstance \<Rightarrow> page_id_t \<Rightarrow> bool
    \<Rightarrow> (BufferPoolManagerInstance \<times> bool) outcome" where
  "UnpinPgImp h s pid dirty =
     (case Find h (page_table s) pid of
        Inl e \<Rightarrow> Some (Inl e)
      | Inr None \<Rightarrow> Some (Inr (s, False))
      | Inr (Some f) \<Rightarrow>
          let page = frame s f in
          if pin_count page > 0 then
            let page1 = page\<lparr>pin_count := pin_count page - 1\<rparr>;
                page2 = (if dirty then page1\<lparr>is_dirty := True\<rparr> else page1);
                s1 = set_frame s f page2
            in if pin_count page2 = 0
               then (case SetEvictable (replacer s1) f True of
                       Inl e \<Rightarrow> Some (Inl e)
                     | Inr r1 \<Rightarrow> Some (Inr (s1\<lparr>replacer := r1\<rparr>, True)))
               else Some (Inr (s1, True))
          else Some (Inr (s, False)))"

text \<open>\<open>assert(page_id != INVALID_PAGE_ID)\<close> is the error \<open>LogicError\<close>.\<close>

definition FlushPgImp :: "(page_id_t \<Rightarrow> nat) \<Rightarrow> BufferPoolManagerInstance \<Rightarrow> page_id_t
    \<Rightarrow> (BufferPoolManagerInstance \<times> bool) outcome" where
  "FlushPgImp h s pid =
     (if pid = INVALID_PAGE_ID then Some (Inl LogicError)
      else case Find h (page_table s) pid of
        Inl e \<Rightarrow> Some (Inl e)
      | Inr None \<Rightarrow> Some (Inr (s, False))
      | Inr (Some f) \<Rightarrow>
          let page = frame s f
          in Some (Inr (set_frame (s\<lparr>disk := (disk s)(pid := data page)\<rparr>) f
                          (page\<lparr>is_dirty := False\<rparr>), True)))"

fun flush_frames :: "nat list \<Rightarrow> BufferPoolManagerInstance \<Rightarrow> BufferPoolManagerInstance" where
  "flush_frames [] s = s"
| "flush_frames (i # js) s =
     (let page = pages s ! i in
      if page_id page \<noteq> INVALID_PAGE_ID
      then flush_frames js
             (s\<lparr>disk := (disk s)(page_id page := data page),
                pages := (pages s)[i := page\<lparr>is_dirty := False\<rparr>]\<rparr>)
      else flush_frames js s)"

definition FlushAllPgsImp :: "BufferPoolManagerInstance \<Rightarrow> BufferPoolManagerInstance" where
  "FlushAllPgsImp s = flush_frames [0 ..< pool_size s] s"

text \<open>\<open>DeallocatePage\<close> does nothing in this code base (it stands for freeing the page on disk).\<close>

definition DeletePgImp :: "(page_id_t \<Rightarrow> nat) \<Rightarrow> BufferPoolManagerInstance \<Rightarrow> page_id_t
    \<Rightarrow> (BufferPoolManagerInstance \<times> bool) outcome" where
  "DeletePgImp h s pid =
     (case Find h (page_table s) pid of
        Inl e \<Rightarrow> Some (Inl e)
      | Inr None \<Rightarrow> Some (Inr (s, True))
      | Inr (Some f) \<Rightarrow>
          if pin_count (frame s f) > 0 then Some (Inr (s, False))
          else
            (case Remove_frame (replacer s) f of
               Inl e \<Rightarrow> Some (Inl e)
             | Inr r1 \<Rightarrow>
                 (case Remove h (page_table s) pid of
                    Inl e \<Rightarrow> Some (Inl e)
                  | Inr (pt, r) \<Rightarrow>
                      let s1 = s\<lparr>free_list := free_list s @ [f], replacer := r1, page_table := pt\<rparr>
                      in Some (Inr (set_frame s1 f (ResetPage (frame s1 f)), True)))))"

text \<open>
  The scenario against which the eviction path is checked: a pool of one frame whose
  disk holds the bytes 1,2,3,4 in page 7. Page 7 is fetched and unpinned clean, then
  \<open>NewPgImp\<close> is called; the result is the id and the bytes of the page it returns.
\<close>

definition example_disk :: "page_id_t \<Rightarrow> byte list" where
  "example_disk p = (if p = 7 then [1, 2, 3, 4] else [0, 0, 0, 0])"

definition stale_bytes_scenario :: "bool \<Rightarrow> (page_id_t \<times> byte list) option" where
  "stale_bytes_scenario ev0 =
     (case FetchPgImp int_hash ev0 (BufferPoolManagerInstance_init 1 2 2 4 example_disk) 7 of
        Some (Inr (s1, Some f1)) \<Rightarrow>
          (case UnpinPgImp int_hash s1 7 False of
             Some (Inr (s2, True)) \<Rightarrow>
               (case NewPgImp int_hash ev0 s2 of
                  Some (Inr (s3, Some (pid, f3))) \<Rightarrow> Some (pid, data (frame s3 f3))
                | _ \<Rightarrow> None)
           | _ \<Rightarrow> None)
      | _ \<Rightarrow> None)"

text \<open>
  The replacer's lists and descriptors fit together: the frames in \<open>inf_\<close> and \<open>kth_\<close>
  are the frames that have a descriptor, each is listed once, and a descriptor has
  counted at least one access.
\<close>

definition replacer_inv :: "LRUKReplacer \<Rightarrow> bool" where
  "replacer_inv r \<longleftrightarrow>
     distinct (inf_list r @ kth_list r) \<and>
     set (inf_list r) \<union> set (kth_list r) = dom (entries r) \<and>
     (\<forall>f e. entries r f = Some e \<longrightarrow> 1 \<le> hint_count e)"

text \<open>
  The pool's structures fit together: a resident page id maps to a frame of the pool
  that carries this id and is tracked by the replacer; an evictable frame is a frame of
  the pool with pin count 0; the free frames are frames of the pool that no page id maps
  to, each listed once.
\<close>

definition bpm_inv :: "(page_id_t \<Rightarrow> nat) \<Rightarrow> BufferPoolManagerInstance \<Rightarrow> bool" where
  "bpm_inv h s \<longleftrightarrow>
     table_inv h (page_table s) \<and>
     replacer_inv (replacer s) \<and>
     length (pages s) = pool_size s \<and>
     replacer_size (replacer s) = pool_size s \<and>
     (\<forall>pid f. Find_nat h (page_table s) pid = Some f \<longrightarrow>
        0 \<le> f \<and> nat f < pool_size s \<and> page_id (frame s f) = pid \<and>
        f \<in> dom (entries (replacer s))) \<and>
     (\<forall>f e. entries (replacer s) f = Some e \<longrightarrow> is_evictable e \<longrightarrow>
        0 \<le> f \<and> nat f < pool_size s \<and> pin_count (frame s f) = 0) \<and>
     distinct (free_list s) \<and>
     (\<forall>f \<in> set (free_list s). 0 \<le> f \<and> nat f < pool_size s \<and>
        (\<forall>pid. Find_nat h (page_table s) pid \<noteq> Some f)) \<and>
     global_depth (page_table s) < 31"

text \<open>Sequences of calls of the pool manager; a run ends at the first call that throws or does
  not return.\<close>

datatype bpm_op = OpNew | OpFetch page_id_t | OpUnpin page_id_t bool | OpFlush page_id_t
  | OpFlushAll | OpDelete page_id_t

definition drop_result :: "('s \<times> 'r) outcome \<Rightarrow> 's outcome" where
  "drop_result x = map_option (map_sum id fst) x"

fun bpm_step :: "(page_id_t \<Rightarrow> nat) \<Rightarrow> bool \<Rightarrow> BufferPoolManagerInstance \<Rightarrow> bpm_op
    \<Rightarrow> BufferPoolManagerInstance outcome" where
  "bpm_step h ev0 s OpNew = drop_result (NewPgImp h ev0 s)"
| "bpm_step h ev0 s (OpFetch pid) = drop_result (FetchPgImp h ev0 s pid)"
| "bpm_step h ev0 s (OpUnpin pid dirty) = drop_result (UnpinPgImp h s pid dirty)"
| "bpm_step h ev0 s (OpFlush pid) = drop_result (FlushPgImp h s pid)"
| "bpm_step h ev0 s OpFlushAll = Some (Inr (FlushAllPgsImp s))"
| "bpm_step h ev0 s (OpDelete pid) = drop_result (DeletePgImp h s pid)"

fun bpm_run :: "(page_id_t \<Rightarrow> nat) \<Rightarrow> bool \<Rightarrow> BufferPoolManagerInstance \<Rightarrow> bpm_op list
    \<Rightarrow> BufferPoolManagerInstance outcome" where
  "bpm_run h ev0 s [] = Some (Inr s)"
| "bpm_run h ev0 s (op # ops) =
     (case bpm_step h ev0 s op of
        Some (Inr s1) \<Rightarrow> bpm_run h ev0 s1 ops
      | other \<Rightarrow> other)"

text \<open>The pool of one frame after one \<open>NewPgImp\<close>: its only frame is pinned.\<close>

definition pinned_state :: "bool \<Rightarrow> BufferPoolManagerInstance" where
  "pinned_state ev0 =
     \<lparr>pool_size = 1,
      pages = [\<lparr>data = [0, 0, 0, 0], page_id = 0, pin_count = 1, is_dirty = False\<rparr>],
      page_table =
        \<lparr>global_depth = 0, bucket_size = 2, num_buckets = 1, dir = [0],
         bstore = [\<lparr>b_size = 2, b_depth = 0, b_list = [(0, 0)]\<rparr>]\<rparr>,
      replacer =
        \<lparr>replacer_size = 1, replacer_k = 2, curr_size = (if ev0 then 0 else 1), inf_list = [0],
         kth_list = [], entries = [0 \<mapsto> \<lparr>hint_count = 1, is_evictable = False\<rparr>]\<rparr>,
      free_list = [],
      next_page_id = 1,
      disk = example_disk\<rparr>"

section \<open>B+ tree pages (src/storage/page/b\_plus\_tree\_internal\_page.cpp)\<close>

text \<open>
  Keys are ordered by the comparator, which is the linear order of the key type here.
  A page's array is the list of its first \<open>size\<close> slots, so \<open>GetSize\<close> is the length of
  the list, and a write to slot \<open>size\<close> followed by \<open>IncreaseSize(1)\<close> appends. Slot 0 of
  an internal page holds a child and a key that the tree never compares.
\<close>

record ('k, 'v) LeafPage =
  l_page_id :: page_id_t
  l_parent :: page_id_t
  l_max_size :: int
  l_next :: page_id_t
  l_array :: "('k \<times> 'v) list"

record 'k InternalPage =
  i_page_id :: page_id_t
  i_parent :: page_id_t
  i_max_size :: int
  i_array :: "('k \<times> page_id_t) list"

datatype ('k, 'v) tree_page = Leaf "('k, 'v) LeafPage" | Internal "'k InternalPage"

subsection \<open>The shared header\<close>

text \<open>
  Modelled from the spec: b\_plus\_tree\_page.cpp is not among the sources. The minimum
  size of a leaf is \<open>\<lceil>(max_size - 1) / 2\<rceil>\<close>, that of an internal page \<open>\<lceil>max_size / 2\<rceil>\<close>;
  a page is the root when its parent is the invalid page id.
\<close>

fun IsLeafPage :: "('k, 'v) tree_page \<Rightarrow> bool" where
  "IsLeafPage (Leaf l) = True"
| "IsLeafPage (Internal n) = False"

fun GetSize :: "('k, 'v) tree_page \<Rightarrow> int" where
  "GetSize (Leaf l) = int (length (l_array l))"
| "GetSize (Internal n) = int (length (i_array n))"

fun GetMaxSize :: "('k, 'v) tree_page \<Rightarrow> int" where
  "GetMaxSize (Leaf l) = l_max_size l"
| "GetMaxSize (Internal n) = i_max_size n"

fun GetMinSize :: "('k, 'v) tree_page \<Rightarrow> int" where
  "GetMinSize (Leaf l) = (l_max_size l - 1 + 1) div 2"
| "GetMinSize (Internal n) = (i_max_size n + 1) div 2"

fun GetPageId :: "('k, 'v) tree_page \<Rightarrow> page_id_t" where
  "GetPageId (Leaf l) = l_page_id l"
| "GetPageId (Internal n) = i_page_id n"

fun GetParentPageId :: "('k, 'v) tree_page \<Rightarrow> page_id_t" where
  "GetParentPageId (Leaf l) = l_parent l"
| "GetParentPageId (Internal n) = i_parent n"

fun SetParentPageId :: "('k, 'v) tree_page \<Rightarrow> page_id_t \<Rightarrow> ('k, 'v) tree_page" where
  "SetParentPageId (Leaf l) p = Leaf (l\<lparr>l_parent := p\<rparr>)"
| "SetParentPageId (Internal n) p = Internal (n\<lparr>i_parent := p\<rparr>)"

definition IsRootPage :: "('k, 'v) tree_page \<Rightarrow> bool" where
  "IsRootPage p = (GetParentPageId p = INVALID_PAGE_ID)"

subsection \<open>Leaf pages\<close>

text \<open>
  Modelled from the spec: b\_plus\_tree\_leaf\_page.cpp is not among the sources. A leaf
  is an array of pairs sorted by key with a link to its right sibling; \<open>Insert\<close> puts
  a pair at its place in the order and refuses a key that is there already; \<open>Remove\<close>
  takes the pair of a key out; \<open>LowerBound\<close> is the first position whose key is at
  least the argument; \<open>Split\<close> leaves the first \<open>min_size\<close> pairs and moves the rest to
  the new right sibling.
\<close>

definition Leaf_Init :: "page_id_t \<Rightarrow> page_id_t \<Rightarrow> int \<Rightarrow> ('k, 'v) LeafPage" where
  "Leaf_Init pid parent max_size =
     \<lparr>l_page_id = pid, l_parent = parent, l_max_size = max_size, l_next = INVALID_PAGE_ID,
      l_array = []\<rparr>"

definition Leaf_LowerBound :: "('k::linorder, 'v) LeafPage \<Rightarrow> 'k \<Rightarrow> nat" where
  "Leaf_LowerBound l key = length (takeWhile (\<lambda>(k, v). k < key) (l_array l))"

definition Leaf_Insert :: "('k::linorder, 'v) LeafPage \<Rightarrow> 'k \<Rightarrow> 'v \<Rightarrow> ('k, 'v) LeafPage \<times> bool" where
  "Leaf_Insert l key val =
     (let index = Leaf_LowerBound l key in
      if index < length (l_array l) \<and> fst (l_array l ! index) = key then (l, False)
      else (l\<lparr>l_array := take index (l_array l) @ [(key, val)] @ drop index (l_array l)\<rparr>, True))"

definition Leaf_Remove :: "('k::linorder, 'v) LeafPage \<Rightarrow> 'k \<Rightarrow> ('k, 'v) LeafPage \<times> bool" where
  "Leaf_Remove l key =
     (let index = Leaf_LowerBound l key in
      if index < length (l_array l) \<and> fst (l_array l ! index) = key
      then (l\<lparr>l_array := take index (l_array l) @ drop (Suc index) (l_array l)\<rparr>, True)
      else (l, False))"

definition Leaf_Split :: "('k, 'v) LeafPage \<Rightarrow> ('k, 'v) LeafPage
    \<Rightarrow> ('k, 'v) LeafPage \<times> ('k, 'v) LeafPage" where
  "Leaf_Split l new_page =
     (let x = nat (GetMinSize (Leaf l)) in
      (l\<lparr>l_array := take x (l_array l)\<rparr>, new_page\<lparr>l_array := drop x (l_array l)\<rparr>))"

subsection \<open>Internal pages\<close>

text \<open>\<open>INTERNAL_PAGE_SIZE\<close> is a build-time constant of an absent header: the parameter \<open>cap\<close>.\<close>

definition Internal_Init :: "int \<Rightarrow> page_id_t \<Rightarrow> page_id_t \<Rightarrow> int \<Rightarrow> 'k InternalPage" where
  "Internal_Init cap pid parent max_size =
     \<lparr>i_page_id = pid, i_parent = parent,
      i_max_size = (if max_size > cap then cap else max_size), i_array = []\<rparr>"

definition KeyAt :: "'k InternalPage \<Rightarrow> nat \<Rightarrow> 'k" where
  "KeyAt n index = fst (i_array n ! index)"

definition ValueAt :: "'k InternalPage \<Rightarrow> nat \<Rightarrow> page_id_t" where
  "ValueAt n index = snd (i_array n ! index)"

definition SetKeyAt :: "'k InternalPage \<Rightarrow> nat \<Rightarrow> 'k \<Rightarrow> 'k InternalPage" where
  "SetKeyAt n index key = n\<lparr>i_array := (i_array n)[index := (key, snd (i_array n ! index))]\<rparr>"

definition SetValueAt :: "'k InternalPage \<Rightarrow> nat \<Rightarrow> page_id_t \<Rightarrow> 'k InternalPage" where
  "SetValueAt n index val = n\<lparr>i_array := (i_array n)[index := (fst (i_array n ! index), val)]\<rparr>"

text \<open>\<open>FindIndex\<close> returns \<open>-1\<close> when no slot holds the value.\<close>

fun find_value :: "('k \<times> page_id_t) list \<Rightarrow> page_id_t \<Rightarrow> int \<Rightarrow> int" where
  "find_value [] val i = -1"
| "find_value ((k, v) # xs) val i = (if v = val then i else find_value xs val (i + 1))"

definition FindIndex :: "'k InternalPage \<Rightarrow> page_id_t \<Rightarrow> int" where
  "FindIndex n val = find_value (i_array n) val 0"

definition ShiftLeft :: "'k InternalPage \<Rightarrow> nat \<Rightarrow> 'k InternalPage" where
  "ShiftLeft n index = n\<lparr>i_array := take index (i_array n) @ drop (Suc index) (i_array n)\<rparr>"

text \<open>\<open>ShiftRight\<close> copies every slot one place up; slot 0 keeps its content.\<close>

definition ShiftRight :: "'k InternalPage \<Rightarrow> 'k InternalPage" where
  "ShiftRight n = n\<lparr>i_array := (case i_array n of [] \<Rightarrow> [] | x # xs \<Rightarrow> x # x # xs)\<rparr>"

text \<open>The binary search of \<open>LowerBound\<close> over the slots \<open>left\<close>, ..., \<open>right - 1\<close>.\<close>

function bsearch :: "('k::linorder \<times> page_id_t) list \<Rightarrow> 'k \<Rightarrow> nat \<Rightarrow> nat \<Rightarrow> nat" where
  "bsearch arr key left right =
     (if left < right then
        (let mid = (left + right) div 2 in
         if key \<le> fst (arr ! mid) then bsearch arr key left mid
         else bsearch arr key (mid + 1) right)
      else left)"
  by pat_completeness auto
termination
  by (relation "measure (\<lambda>(arr, key, left, right). right - left)") auto

declare bsearch.simps [simp del]

definition Internal_LowerBound :: "('k::linorder) InternalPage \<Rightarrow> 'k \<Rightarrow> nat" where
  "Internal_LowerBound n key = bsearch (i_array n) key 1 (length (i_array n))"

definition Internal_Insert :: "('k::linorder) InternalPage \<Rightarrow> 'k \<Rightarrow> page_id_t
    \<Rightarrow> 'k InternalPage \<times> bool" where
  "Internal_Insert n key val =
     (let index = Internal_LowerBound n key in
      if index < length (i_array n) \<and> key = KeyAt n index then (n, False)
      else (n\<lparr>i_array := take index (i_array n) @ [(key, val)] @ drop index (i_array n)\<rparr>, True))"

text \<open>
  \<open>Split\<close> copies the first \<open>max_size\<close> slots, puts the new pair at the place that the
  binary search over these slots gives, keeps the first \<open>min_size\<close> pairs and gives the
  rest to the new page.
\<close>

definition Internal_Split :: "('k::linorder) InternalPage \<Rightarrow> 'k InternalPage \<Rightarrow> 'k \<Rightarrow> page_id_t
    \<Rightarrow> 'k InternalPage \<times> 'k InternalPage" where
  "Internal_Split n new_page key val =
     (let vec = take (nat (i_max_size n)) (i_array n);
          index = bsearch (i_array n) key 1 (length vec);
          vec1 = take index vec @ [(key, val)] @ drop index vec;
          x = nat ((i_max_size n + 1) div 2)
      in (n\<lparr>i_array := take x vec1\<rparr>, new_page\<lparr>i_array := drop x vec1\<rparr>))"

section \<open>B+ tree (src/storage/index/b\_plus\_tree.cpp)\<close>

text \<open>
  The tree reaches its pages through the buffer pool by page id. \<open>tree_pages\<close> is the
  content of the pages that the pool and the disk hold for the tree, as typed pages;
  \<open>next_page\<close> is the page id that \<open>NewPage\<close> hands out next. A page pointer of the source
  is the id of the page, and a write through the pointer is a write to \<open>tree_pages\<close>.
  Fetching an id that holds no tree page is the error \<open>BadFetch\<close>, a cast to the wrong shape
  is \<open>BadCast\<close>, and reading a slot at or past \<open>size\<close> is \<open>OutOfRange\<close>. \<open>DeletePage\<close>
  takes the page out of \<open>tree_pages\<close>. Latches are left out: one thread runs at a time.

  Modelled from the spec: header\_page.cpp is not among the sources. The header page maps
  the name of an index to its root page id (\<open>header_records\<close>); \<open>InsertRecord\<close> and
  \<open>UpdateRecord\<close> both set the entry of the name.

  \<open>unset_key\<close> is the key that a fresh internal page holds in a slot that was never
  written, and \<open>internal_page_size\<close> the build-time constant \<open>INTERNAL_PAGE_SIZE\<close>.
\<close>

record ('k, 'v) BPlusTree =
  index_name :: string
  root_page_id :: page_id_t
  leaf_max_size :: int
  internal_max_size :: int
  internal_page_size :: int
  unset_key :: 'k
  tree_pages :: "page_id_t \<rightharpoonup> ('k, 'v) tree_page"
  next_page :: page_id_t
  header_records :: "string \<rightharpoonup> page_id_t"

text \<open>
  The page set of a transaction holds the pages that a write keeps latched, oldest first;
  \<open>None\<close> is the null pointer that stands for the root latch.
\<close>

record Transaction =
  page_set :: "page_id_t option list"
  deleted_page_set :: "page_id_t list"

datatype OpeType = FIND | INSERT | REMOVE


text \<open>The tree as its constructor leaves it; page 0 is the header page.\<close>

definition BPlusTree_init :: "string \<Rightarrow> int \<Rightarrow> int \<Rightarrow> int \<Rightarrow> 'k \<Rightarrow> ('k, 'v) BPlusTree" where
  "BPlusTree_init name leaf_max internal_max cap k0 =
     \<lparr>index_name = name, root_page_id = INVALID_PAGE_ID, leaf_max_size = leaf_max,
      internal_max_size = internal_max, internal_page_size = cap, unset_key = k0,
      tree_pages = Map.empty, next_page = 1, header_records = Map.empty\<rparr>"

definition Transaction_init :: Transaction where
  "Transaction_init = \<lparr>page_set = [], deleted_page_set = []\<rparr>"

definition then_do :: "error + 'a \<Rightarrow> ('a \<Rightarrow> error + 'b) \<Rightarrow> error + 'b" where
  "then_do x f = (case x of Inl e \<Rightarrow> Inl e | Inr y \<Rightarrow> f y)"

definition FetchPage :: "('k, 'v) BPlusTree \<Rightarrow> page_id_t \<Rightarrow> error + ('k, 'v) tree_page" where
  "FetchPage t pid = (case tree_pages t pid of None \<Rightarrow> Inl (BadFetch pid) | Some p \<Rightarrow> Inr p)"

definition write_page :: "('k, 'v) BPlusTree \<Rightarrow> page_id_t \<Rightarrow> ('k, 'v) tree_page
    \<Rightarrow> ('k, 'v) BPlusTree" where
  "write_page t pid p = t\<lparr>tree_pages := (tree_pages t)(pid \<mapsto> p)\<rparr>"

definition DeletePage :: "('k, 'v) BPlusTree \<Rightarrow> page_id_t \<Rightarrow> ('k, 'v) BPlusTree" where
  "DeletePage t pid = t\<lparr>tree_pages := (tree_pages t)(pid := None)\<rparr>"

fun CastLeafPage :: "('k, 'v) tree_page \<Rightarrow> error + ('k, 'v) LeafPage" where
  "CastLeafPage (Leaf l) = Inr l"
| "CastLeafPage (Internal n) = Inl BadCast"

fun CastInternalPage :: "('k, 'v) tree_page \<Rightarrow> error + 'k InternalPage" where
  "CastInternalPage (Internal n) = Inr n"
| "CastInternalPage (Leaf l) = Inl BadCast"

definition IsEmpty :: "('k, 'v) BPlusTree \<Rightarrow> bool" where
  "IsEmpty t = (root_page_id t = INVALID_PAGE_ID)"

definition IsSafe :: "('k, 'v) tree_page \<Rightarrow> OpeType \<Rightarrow> bool" where
  "IsSafe page op =
     (case op of
        FIND \<Rightarrow> True
      | INSERT \<Rightarrow> (if IsLeafPage page then GetSize page < GetMaxSize page - 1
                   else GetSize page < GetMaxSize page)
      | REMOVE \<Rightarrow> GetSize page > GetMinSize page)"

definition UpdateRootPageId :: "('k, 'v) BPlusTree \<Rightarrow> ('k, 'v) BPlusTree" where
  "UpdateRootPageId t = t\<lparr>header_records := (header_records t)(index_name t \<mapsto> root_page_id t)\<rparr>"

definition GetPageFromTransaction :: "('k, 'v) BPlusTree \<Rightarrow> page_id_t option list \<Rightarrow> page_id_t
    \<Rightarrow> error + ('k, 'v) tree_page" where
  "GetPageFromTransaction t ps pid =
     (if Some pid \<in> set ps then FetchPage t pid else Inl LogicError)"

subsection \<open>Search\<close>

text \<open>
  The choice of the child in \<open>GetLeafPage\<close>: the child left of the first key among the
  slots 1, 2, ... that is greater than the search key, the last child when there is none.
  \<open>prev\<close> is the child of the slot before the remaining ones.
\<close>

fun scan_child :: "page_id_t \<Rightarrow> ('k::linorder \<times> page_id_t) list \<Rightarrow> 'k \<Rightarrow> page_id_t" where
  "scan_child prev [] key = prev"
| "scan_child prev ((k, v) # rest) key = (if k > key then prev else scan_child v rest key)"

text \<open>
  The loop of \<open>GetLeafPage\<close>, from the page \<open>cur\<close>; \<open>prev_null\<close> says that \<open>prev_page\<close> is
  null and \<open>ps\<close> is the page set. An optimistic pass that ends on an unsafe leaf empties
  the page set and starts over from the root as a pessimistic pass.
\<close>

partial_function (option) descend :: "('k::linorder, 'v) BPlusTree \<Rightarrow> 'k \<Rightarrow> OpeType \<Rightarrow> bool
    \<Rightarrow> page_id_t \<Rightarrow> bool \<Rightarrow> page_id_t option list
    \<Rightarrow> (error + page_id_t \<times> page_id_t option list) option" where
  "descend t key op is_first cur prev_null ps =
     (case FetchPage t cur of
        Inl e \<Rightarrow> Some (Inl e)
      | Inr page \<Rightarrow>
          (let ps1 = (if op = FIND then ps
                      else if \<not> is_first then (if IsSafe page op then [] else ps) @ [Some cur]
                      else if IsLeafPage page then ps @ [Some cur]
                      else if prev_null then [] else ps)
           in case page of
                Leaf l \<Rightarrow>
                  if \<not> IsSafe page op \<and> is_first
                  then descend t key op False (root_page_id t) True [None]
                  else Some (Inr (cur, ps1))
              | Internal n \<Rightarrow>
                  (case i_array n of
                     [] \<Rightarrow> Some (Inl OutOfRange)
                   | (k0, v0) # rest \<Rightarrow>
                       descend t key op is_first (scan_child v0 rest key) False ps1)))"

declare descend.simps [code]

definition start_new_tree :: "('k, 'v) BPlusTree \<Rightarrow> ('k, 'v) BPlusTree" where
  "start_new_tree t =
     (let t1 = UpdateRootPageId (t\<lparr>root_page_id := next_page t, next_page := next_page t + 1\<rparr>)
      in write_page t1 (root_page_id t1)
           (Leaf (Leaf_Init (root_page_id t1) INVALID_PAGE_ID (leaf_max_size t1))))"

definition GetLeafPage :: "('k::linorder, 'v) BPlusTree \<Rightarrow> Transaction \<Rightarrow> 'k \<Rightarrow> OpeType
    \<Rightarrow> (error + ('k, 'v) BPlusTree \<times> Transaction \<times> page_id_t) option" where
  "GetLeafPage t txn key op =
     (let t1 = (if IsEmpty t \<and> op = INSERT then start_new_tree t else t);
          ps = (if op \<noteq> FIND then page_set txn @ [None] else page_set txn)
      in case descend t1 key op True (root_page_id t1) True ps of
           None \<Rightarrow> None
         | Some (Inl e) \<Rightarrow> Some (Inl e)
         | Some (Inr (pid, ps')) \<Rightarrow> Some (Inr (t1, txn\<lparr>page_set := ps'\<rparr>, pid)))"

definition UnlockPageSet :: "Transaction \<Rightarrow> Transaction" where
  "UnlockPageSet txn = txn\<lparr>page_set := []\<rparr>"

text \<open>\<open>GetValue\<close> returns whether the key was found and the values it appends to \<open>result\<close>.\<close>

definition GetValue :: "('k::linorder, 'v) BPlusTree \<Rightarrow> Transaction \<Rightarrow> 'k
    \<Rightarrow> (error + bool \<times> 'v list) option" where
  "GetValue t txn key =
     (case GetLeafPage t txn key FIND of
        None \<Rightarrow> None
      | Some (Inl e) \<Rightarrow> Some (Inl e)
      | Some (Inr (t1, txn1, pid)) \<Rightarrow>
          Some (then_do (FetchPage t1 pid) (\<lambda>page.
                then_do (CastLeafPage page) (\<lambda>leaf_page.
                  (let result = map snd (filter (\<lambda>(k, v). k = key) (l_array leaf_page))
                   in Inr (result \<noteq> [], result))))))"

subsection \<open>Insertion\<close>

fun set_parents :: "('k, 'v) BPlusTree \<Rightarrow> page_id_t list \<Rightarrow> page_id_t
    \<Rightarrow> error + ('k, 'v) BPlusTree" where
  "set_parents t [] parent = Inr t"
| "set_parents t (c # cs) parent =
     then_do (FetchPage t c) (\<lambda>child.
       set_parents (write_page t c (SetParentPageId child parent)) cs parent)"

definition UpdateChildNode :: "('k, 'v) BPlusTree \<Rightarrow> 'k InternalPage \<Rightarrow> nat \<Rightarrow> nat
    \<Rightarrow> error + ('k, 'v) BPlusTree" where
  "UpdateChildNode t node begin end =
     set_parents t (map snd (take (end - begin) (drop begin (i_array node)))) (i_page_id node)"

definition new_root :: "('k, 'v) BPlusTree \<Rightarrow> page_id_t \<Rightarrow> page_id_t \<Rightarrow> 'k
    \<Rightarrow> error + ('k, 'v) BPlusTree" where
  "new_root t left_id right_id key0 =
     (let t1 = UpdateRootPageId (t\<lparr>root_page_id := next_page t, next_page := next_page t + 1\<rparr>);
          root_node = Internal_Init (internal_page_size t1) (root_page_id t1) INVALID_PAGE_ID
                        (internal_max_size t1);
          t2 = write_page t1 (root_page_id t1)
                 (Internal (root_node\<lparr>i_array := [(unset_key t1, left_id), (key0, right_id)]\<rparr>))
      in set_parents t2 [left_id, right_id] (root_page_id t2))"

partial_function (option) InsertInParent :: "('k::linorder, 'v) BPlusTree \<Rightarrow> page_id_t option list
    \<Rightarrow> page_id_t \<Rightarrow> page_id_t \<Rightarrow> 'k \<Rightarrow> (error + ('k, 'v) BPlusTree) option" where
  "InsertInParent t ps left_id right_id key0 =
     (case FetchPage t left_id of
        Inl e \<Rightarrow> Some (Inl e)
      | Inr left_node \<Rightarrow>
          if IsRootPage left_node then Some (new_root t left_id right_id key0)
          else
            (case then_do (GetPageFromTransaction t ps (GetParentPageId left_node)) CastInternalPage of
               Inl e \<Rightarrow> Some (Inl e)
             | Inr parent_node \<Rightarrow>
                 if int (length (i_array parent_node)) < i_max_size parent_node
                 then Some (Inr (write_page t (GetParentPageId left_node)
                        (Internal (fst (Internal_Insert parent_node key0 right_id)))))
                 else
                   (let right_parent_page_id = next_page t;
                        t1 = t\<lparr>next_page := next_page t + 1\<rparr>;
                        right_parent_node = Internal_Init (internal_page_size t1) right_parent_page_id
                                              (i_parent parent_node) (internal_max_size t1);
                        (p1, r1) = Internal_Split parent_node right_parent_node key0 right_id;
                        t2 = write_page (write_page t1 (GetParentPageId left_node) (Internal p1))
                               right_parent_page_id (Internal r1)
                    in case UpdateChildNode t2 r1 0 (length (i_array r1)) of
                         Inl e \<Rightarrow> Some (Inl e)
                       | Inr t3 \<Rightarrow>
                           (case i_array r1 of
                              [] \<Rightarrow> Some (Inl OutOfRange)
                            | (parent_key0, v) # rest \<Rightarrow>
                                InsertInParent t3 ps (GetParentPageId left_node)
                                  right_parent_page_id parent_key0))))"

declare InsertInParent.simps [code]

text \<open>\<open>Insert\<close> returns the tree, the transaction and whether the key was new.\<close>

definition split_leaf :: "('k, 'v) BPlusTree \<Rightarrow> page_id_t \<Rightarrow> ('k, 'v) LeafPage
    \<Rightarrow> ('k, 'v) BPlusTree \<times> page_id_t \<times> ('k, 'v) LeafPage" where
  "split_leaf t pid leaf_page =
     (let right_page_id = next_page t;
          t1 = t\<lparr>next_page := next_page t + 1\<rparr>;
          (l1, r1) = Leaf_Split leaf_page
                       (Leaf_Init right_page_id (l_parent leaf_page) (leaf_max_size t1));
          r2 = r1\<lparr>l_next := l_next l1\<rparr>;
          l2 = l1\<lparr>l_next := l_page_id r2\<rparr>
      in (write_page (write_page t1 pid (Leaf l2)) right_page_id (Leaf r2), right_page_id, r2))"

definition BPlusTree_Insert :: "('k::linorder, 'v) BPlusTree \<Rightarrow> Transaction \<Rightarrow> 'k \<Rightarrow> 'v
    \<Rightarrow> (error + ('k, 'v) BPlusTree \<times> Transaction \<times> bool) option" where
  "BPlusTree_Insert t txn key val =
     (case GetLeafPage t txn key INSERT of
        None \<Rightarrow> None
      | Some (Inl e) \<Rightarrow> Some (Inl e)
      | Some (Inr (t1, txn1, pid)) \<Rightarrow>
          (case then_do (FetchPage t1 pid) CastLeafPage of
             Inl e \<Rightarrow> Some (Inl e)
           | Inr leaf_page \<Rightarrow>
               (let (leaf1, inserted) = Leaf_Insert leaf_page key val in
                if \<not> inserted then Some (Inr (t1, UnlockPageSet txn1, False))
                else if int (length (l_array leaf1)) < leaf_max_size t1
                then Some (Inr (write_page t1 pid (Leaf leaf1), UnlockPageSet txn1, True))
                else
                  (let (t2, right_page_id, new_leaf) = split_leaf t1 pid leaf1 in
                   case l_array new_leaf of
                     [] \<Rightarrow> Some (Inl OutOfRange)
                   | (key0, v) # rest \<Rightarrow>
                       (case InsertInParent t2 (page_set txn1) pid right_page_id key0 of
                          None \<Rightarrow> None
                        | Some (Inl e) \<Rightarrow> Some (Inl e)
                        | Some (Inr t3) \<Rightarrow> Some (Inr (t3, UnlockPageSet txn1, True)))))))"

subsection \<open>Removal\<close>

text \<open>
  \<open>TryBorrow\<close> moves one pair from the sibling to the page and corrects the key of the
  parent between the two; it returns whether it did.
\<close>

definition borrow_leaf :: "('k::linorder, 'v) LeafPage \<Rightarrow> ('k, 'v) LeafPage \<Rightarrow> bool
    \<Rightarrow> error + ('k, 'v) LeafPage \<times> ('k, 'v) LeafPage \<times> 'k" where
  "borrow_leaf leaf_page leaf_sibling_page is_left =
     (let sibling_borrow_at = (if is_left then length (l_array leaf_sibling_page) - 1 else 0) in
      if sibling_borrow_at \<ge> length (l_array leaf_sibling_page) then Inl OutOfRange
      else
        (let (k, v) = l_array leaf_sibling_page ! sibling_borrow_at;
             l1 = fst (Leaf_Insert leaf_page k v);
             s1 = fst (Leaf_Remove leaf_sibling_page k)
         in case l_array (if is_left then l1 else s1) of
              [] \<Rightarrow> Inl OutOfRange
            | (update_key, v0) # rest \<Rightarrow> Inr (l1, s1, update_key)))"

definition borrow_internal :: "'k InternalPage \<Rightarrow> 'k InternalPage \<Rightarrow> 'k \<Rightarrow> bool
    \<Rightarrow> error + 'k InternalPage \<times> 'k InternalPage \<times> 'k \<times> nat" where
  "borrow_internal internal_page internal_sibling_page parent_key is_left =
     (let size = length (i_array internal_sibling_page);
          sibling_borrow_at = (if is_left then size - 1 else 1) in
      if sibling_borrow_at \<ge> size \<or> i_array internal_page = [] then Inl OutOfRange
      else
        (let update_key = KeyAt internal_sibling_page sibling_borrow_at in
         if is_left then
           Inr (SetValueAt (SetKeyAt (ShiftRight internal_page) 1 parent_key) 0
                  (ValueAt internal_sibling_page (size - 1)),
                internal_sibling_page\<lparr>i_array := butlast (i_array internal_sibling_page)\<rparr>,
                update_key, 0)
         else
           Inr (internal_page\<lparr>i_array := i_array internal_page @
                    [(parent_key, ValueAt internal_sibling_page 0)]\<rparr>,
                ShiftLeft internal_sibling_page 0,
                update_key, length (i_array internal_page))))"

definition TryBorrow :: "('k::linorder, 'v) BPlusTree \<Rightarrow> page_id_t \<Rightarrow> page_id_t option \<Rightarrow> page_id_t
    \<Rightarrow> bool \<Rightarrow> error + ('k, 'v) BPlusTree \<times> bool" where
  "TryBorrow t pid siblingpage parent_id is_left =
     (case siblingpage of
        None \<Rightarrow> Inr (t, False)
      | Some sid \<Rightarrow>
          then_do (FetchPage t sid) (\<lambda>sibling_page.
          if GetSize sibling_page \<le> GetMinSize sibling_page then Inr (t, False)
          else
            then_do (FetchPage t pid) (\<lambda>page.
            then_do (then_do (FetchPage t parent_id) CastInternalPage) (\<lambda>parent_page.
              (let parent_update_at = FindIndex parent_page pid + (if is_left then 0 else 1) in
               if parent_update_at < 0 \<or> parent_update_at \<ge> int (length (i_array parent_page))
               then Inl OutOfRange
               else
                 then_do
                   (case page of
                      Leaf leaf_page \<Rightarrow>
                        then_do (CastLeafPage sibling_page) (\<lambda>leaf_sibling_page.
                        then_do (borrow_leaf leaf_page leaf_sibling_page is_left) (\<lambda>(l1, s1, update_key).
                          Inr (write_page (write_page t pid (Leaf l1)) sid (Leaf s1), update_key)))
                    | Internal internal_page \<Rightarrow>
                        then_do (CastInternalPage sibling_page) (\<lambda>internal_sibling_page.
                        then_do (borrow_internal internal_page internal_sibling_page
                                   (KeyAt parent_page (nat parent_update_at)) is_left)
                          (\<lambda>(n1, s1, update_key, moved).
                        then_do (UpdateChildNode
                                   (write_page (write_page t pid (Internal n1)) sid (Internal s1))
                                   n1 moved (moved + 1)) (\<lambda>t1.
                          Inr (t1, update_key)))))
                   (\<lambda>(t1, update_key).
                 then_do (then_do (FetchPage t1 parent_id) CastInternalPage) (\<lambda>parent1.
                   Inr (write_page t1 parent_id
                          (Internal (SetKeyAt parent1 (nat parent_update_at) update_key)), True))))))))"

text \<open>\<open>Merge\<close> moves every pair of the right page to the left page and drops the right page
  from the parent.\<close>

definition Merge :: "('k::linorder, 'v) BPlusTree \<Rightarrow> page_id_t \<Rightarrow> page_id_t \<Rightarrow> page_id_t
    \<Rightarrow> error + ('k, 'v) BPlusTree" where
  "Merge t left_id right_id parent_id =
     then_do (then_do (FetchPage t parent_id) CastInternalPage) (\<lambda>parent_page.
     then_do (FetchPage t left_id) (\<lambda>left_page.
     then_do (FetchPage t right_id) (\<lambda>right_page.
       (let position_left = FindIndex parent_page left_id in
        then_do
          (case left_page of
             Leaf left_node \<Rightarrow>
               then_do (CastLeafPage right_page) (\<lambda>right_node.
                 Inr (write_page t left_id
                        (Leaf ((foldl (\<lambda>l (k, v). fst (Leaf_Insert l k v)) left_node
                                  (l_array right_node))\<lparr>l_next := l_next right_node\<rparr>))))
           | Internal left_node \<Rightarrow>
               then_do (CastInternalPage right_page) (\<lambda>right_node.
                 if nat (position_left + 1) \<ge> length (i_array parent_page) \<or> i_array right_node = []
                 then Inl OutOfRange
                 else
                   (let old_size = length (i_array left_node);
                        l1 = left_node\<lparr>i_array := i_array left_node @
                               [(KeyAt parent_page (nat (position_left + 1)), ValueAt right_node 0)]\<rparr>;
                        l2 = foldl (\<lambda>l (k, v). fst (Internal_Insert l k v)) l1 (tl (i_array right_node))
                    in UpdateChildNode (write_page t left_id (Internal l2)) l2 old_size
                         (length (i_array l2)))))
          (\<lambda>t1.
        then_do (then_do (FetchPage t1 parent_id) CastInternalPage) (\<lambda>parent1.
          Inr (write_page t1 parent_id (Internal (ShiftLeft parent1 (nat (position_left + 1)))))))))))"

definition collapse_root :: "('k, 'v) BPlusTree \<Rightarrow> page_id_t list \<Rightarrow> page_id_t \<Rightarrow> 'k InternalPage
    \<Rightarrow> error + ('k, 'v) BPlusTree \<times> page_id_t list" where
  "collapse_root t del pid node =
     (case i_array node of
        [] \<Rightarrow> Inl OutOfRange
      | (k0, v0) # rest \<Rightarrow>
          (let t1 = t\<lparr>root_page_id := v0\<rparr> in
           then_do (FetchPage t1 (root_page_id t1)) (\<lambda>new_node.
             Inr (UpdateRootPageId
                    (write_page t1 (root_page_id t1) (SetParentPageId new_node INVALID_PAGE_ID)),
                  del @ [pid]))))"

text \<open>\<open>GetSiblings\<close> gives the page ids left and right of the page in its parent.\<close>

definition GetSiblings :: "('k, 'v) tree_page \<Rightarrow> 'k InternalPage \<Rightarrow> error + page_id_t \<times> page_id_t" where
  "GetSiblings page parent_node =
     (if IsRootPage page then Inl InvalidArgument
      else
        (let index = FindIndex parent_node (GetPageId page) in
         if index = -1 then Inl LogicError
         else Inr (if index \<noteq> 0 then ValueAt parent_node (nat (index - 1)) else INVALID_PAGE_ID,
                   if index \<noteq> int (length (i_array parent_node)) - 1
                   then ValueAt parent_node (nat (index + 1)) else INVALID_PAGE_ID)))"

definition fetch_sibling :: "('k, 'v) BPlusTree \<Rightarrow> page_id_t \<Rightarrow> error + page_id_t option" where
  "fetch_sibling t sid =
     (if sid \<noteq> INVALID_PAGE_ID then then_do (FetchPage t sid) (\<lambda>p. Inr (Some sid)) else Inr None)"

text \<open>
  One round of \<open>HandleUnderFlow\<close> on a page that is not the root: borrow from the left
  sibling, else from the right one, else merge. The result says whether the parent has
  to be handled next.
\<close>

definition underflow_step :: "('k::linorder, 'v) BPlusTree \<Rightarrow> page_id_t option list \<Rightarrow> page_id_t list
    \<Rightarrow> page_id_t \<Rightarrow> ('k, 'v) tree_page
    \<Rightarrow> error + ('k, 'v) BPlusTree \<times> page_id_t list \<times> bool" where
  "underflow_step t ps del pid page =
     then_do (then_do (GetPageFromTransaction t ps (GetParentPageId page)) CastInternalPage)
       (\<lambda>parent_node.
     then_do (GetSiblings page parent_node) (\<lambda>(left_sibling_page_id, right_sibling_page_id).
       if left_sibling_page_id = INVALID_PAGE_ID \<and> right_sibling_page_id = INVALID_PAGE_ID
       then Inl LogicError
       else
         then_do (fetch_sibling t left_sibling_page_id) (\<lambda>left_sibling_page.
         then_do (fetch_sibling t right_sibling_page_id) (\<lambda>right_sibling_page.
         then_do (TryBorrow t pid left_sibling_page (GetParentPageId page) True) (\<lambda>(t1, b1).
           if b1 then Inr (t1, del, False)
           else
             then_do (TryBorrow t1 pid right_sibling_page (GetParentPageId page) False) (\<lambda>(t2, b2).
               if b2 then Inr (t2, del, False)
               else
                 (let (left_page, right_page) =
                        (case left_sibling_page of
                           Some l \<Rightarrow> (l, pid)
                         | None \<Rightarrow> (pid, right_sibling_page_id))
                  in then_do (Merge t2 left_page right_page (GetParentPageId page)) (\<lambda>t3.
                     then_do (then_do (FetchPage t3 (GetParentPageId page)) CastInternalPage)
                       (\<lambda>parent1.
                       Inr (t3, del @ [right_page],
                            int (length (i_array parent1)) < (i_max_size parent1 + 1) div 2))))))))))"

partial_function (option) HandleUnderFlow :: "('k::linorder, 'v) BPlusTree \<Rightarrow> page_id_t option list
    \<Rightarrow> page_id_t list \<Rightarrow> page_id_t \<Rightarrow> (error + ('k, 'v) BPlusTree \<times> page_id_t list) option" where
  "HandleUnderFlow t ps del pid =
     (case FetchPage t pid of
        Inl e \<Rightarrow> Some (Inl e)
      | Inr page \<Rightarrow>
          if IsRootPage page then
            (if IsLeafPage page \<or> GetSize page > 1 then Some (Inr (t, del))
             else Some (then_do (CastInternalPage page) (collapse_root t del pid)))
          else
            (case underflow_step t ps del pid page of
               Inl e \<Rightarrow> Some (Inl e)
             | Inr (t1, del1, again) \<Rightarrow>
                 if again then HandleUnderFlow t1 ps del1 (GetParentPageId page)
                 else Some (Inr (t1, del1))))"

declare HandleUnderFlow.simps [code]

definition BPlusTree_Remove :: "('k::linorder, 'v) BPlusTree \<Rightarrow> Transaction \<Rightarrow> 'k
    \<Rightarrow> (error + ('k, 'v) BPlusTree \<times> Transaction) option" where
  "BPlusTree_Remove t txn key =
     (case GetLeafPage t txn key REMOVE of
        None \<Rightarrow> None
      | Some (Inl e) \<Rightarrow> Some (Inl e)
      | Some (Inr (t1, txn1, pid)) \<Rightarrow>
          (case then_do (FetchPage t1 pid) CastLeafPage of
             Inl e \<Rightarrow> Some (Inl e)
           | Inr node \<Rightarrow>
               (let (node1, removed) = Leaf_Remove node key in
                if \<not> removed then Some (Inr (t1, UnlockPageSet txn1))
                else
                  (let t2 = write_page t1 pid (Leaf node1) in
                   if IsRootPage (Leaf node1) then
                     Some (Inr (if l_array node1 = [] then t2\<lparr>root_page_id := INVALID_PAGE_ID\<rparr> else t2,
                                UnlockPageSet txn1))
                   else if GetSize (Leaf node1) \<ge> GetMinSize (Leaf node1)
                   then Some (Inr (t2, UnlockPageSet txn1))
                   else
                     (case HandleUnderFlow t2 (page_set txn1) (deleted_page_set txn1) pid of
                        None \<Rightarrow> None
                      | Some (Inl e) \<Rightarrow> Some (Inl e)
                      | Some (Inr (t3, del)) \<Rightarrow>
                          Some (Inr (foldl DeletePage t3 del,
                                     (UnlockPageSet txn1)\<lparr>deleted_page_set := []\<rparr>)))))))"

subsection \<open>Iterator\<close>



subsection \<open>Sequences of operations\<close>

datatype ('k, 'v) tree_op = TInsert 'k 'v | TRemove 'k

fun tree_step :: "('k::linorder, 'v) BPlusTree \<Rightarrow> ('k, 'v) tree_op
    \<Rightarrow> (error + ('k, 'v) BPlusTree) option" where
  "tree_step t (TInsert k v) =
     (case BPlusTree_Insert t Transaction_init k v of
        None \<Rightarrow> None
      | Some (Inl e) \<Rightarrow> Some (Inl e)
      | Some (Inr (t1, txn, b)) \<Rightarrow> Some (Inr t1))"
| "tree_step t (TRemove k) =
     (case BPlusTree_Remove t Transaction_init k of
        None \<Rightarrow> None
      | Some (Inl e) \<Rightarrow> Some (Inl e)
      | Some (Inr (t1, txn)) \<Rightarrow> Some (Inr t1))"

fun tree_run :: "('k::linorder, 'v) BPlusTree \<Rightarrow> ('k, 'v) tree_op list
    \<Rightarrow> (error + ('k, 'v) BPlusTree) option" where
  "tree_run t [] = Some (Inr t)"
| "tree_run t (op # ops) =
     (case tree_step t op of
        None \<Rightarrow> None
      | Some (Inl e) \<Rightarrow> Some (Inl e)
      | Some (Inr t1) \<Rightarrow> tree_run t1 ops)"

text \<open>What a caller sees after a sequence of operations on a tree.\<close>

definition GetValue_after :: "('k::linorder, 'v) BPlusTree \<Rightarrow> ('k, 'v) tree_op list \<Rightarrow> 'k
    \<Rightarrow> (error + bool \<times> 'v list) option" where
  "GetValue_after t ops key =
     (case tree_run t ops of
        None \<Rightarrow> None
      | Some (Inl e) \<Rightarrow> Some (Inl e)
      | Some (Inr t1) \<Rightarrow> GetValue t1 Transaction_init key)"


text \<open>The root page id of the tree and the one that the header page records for it.\<close>

definition root_ids_after :: "('k::linorder, 'v) BPlusTree \<Rightarrow> ('k, 'v) tree_op list
    \<Rightarrow> (error + page_id_t \<times> page_id_t option) option" where
  "root_ids_after t ops =
     (case tree_run t ops of
        None \<Rightarrow> None
      | Some (Inl e) \<Rightarrow> Some (Inl e)
      | Some (Inr t1) \<Rightarrow> Some (Inr (root_page_id t1, header_records t1 (index_name t1))))"

subsection \<open>The shape of a tree\<close>

text \<open>The pages of the tree are those that the child entries lead to from the root.\<close>

inductive reachable :: "('k, 'v) BPlusTree \<Rightarrow> page_id_t \<Rightarrow> bool" for t :: "('k, 'v) BPlusTree" where
  reachable_root: "root_page_id t \<noteq> INVALID_PAGE_ID \<Longrightarrow> reachable t (root_page_id t)"
| reachable_child: "reachable t p \<Longrightarrow> tree_pages t p = Some (Internal n) \<Longrightarrow>
     c \<in> snd ` set (i_array n) \<Longrightarrow> reachable t c"

text \<open>Every page of the tree but the root holds between \<open>min_size\<close> and \<open>max_size\<close> entries.\<close>

definition sizes_ok :: "('k, 'v) BPlusTree \<Rightarrow> bool" where
  "sizes_ok t \<longleftrightarrow>
     (\<forall>p. reachable t p \<longrightarrow>
        (\<exists>page. tree_pages t p = Some page \<and>
           (p \<noteq> root_page_id t \<longrightarrow>
              GetMinSize page \<le> GetSize page \<and> GetSize page \<le> GetMaxSize page)))"

text \<open>The leftmost leaf below a page: follow the child of slot 0, as \<open>Begin()\<close> does.\<close>

inductive leftmost :: "('k, 'v) BPlusTree \<Rightarrow> page_id_t \<Rightarrow> page_id_t \<Rightarrow> bool"
  for t :: "('k, 'v) BPlusTree" where
  leftmost_leaf: "tree_pages t p = Some (Leaf l) \<Longrightarrow> leftmost t p p"
| leftmost_child: "tree_pages t p = Some (Internal n) \<Longrightarrow> i_array n = (k, c) # rest \<Longrightarrow>
     leftmost t c q \<Longrightarrow> leftmost t p q"

text \<open>The pairs that following \<open>next_page_id\<close> from a leaf visits, up to the invalid page id.\<close>

inductive leaf_chain :: "('k, 'v) BPlusTree \<Rightarrow> page_id_t \<Rightarrow> ('k \<times> 'v) list \<Rightarrow> bool"
  for t :: "('k, 'v) BPlusTree" where
  leaf_chain_end: "leaf_chain t INVALID_PAGE_ID []"
| leaf_chain_next: "p \<noteq> INVALID_PAGE_ID \<Longrightarrow> tree_pages t p = Some (Leaf l) \<Longrightarrow>
     leaf_chain t (l_next l) kvs \<Longrightarrow> leaf_chain t p (l_array l @ kvs)"

definition tree_pairs :: "('k, 'v) BPlusTree \<Rightarrow> ('k \<times> 'v) set" where
  "tree_pairs t = {kv. \<exists>p l. reachable t p \<and> tree_pages t p = Some (Leaf l) \<and> kv \<in> set (l_array l)}"

text \<open>
  Following \<open>next_page_id\<close> from the leftmost leaf visits all pairs of the tree, in strictly
  increasing order of the keys.
\<close>

definition chain_ok :: "('k::linorder, 'v) BPlusTree \<Rightarrow> bool" where
  "chain_ok t \<longleftrightarrow>
     root_page_id t = INVALID_PAGE_ID \<or>
     (\<exists>first kvs. leftmost t (root_page_id t) first \<and> leaf_chain t first kvs \<and>
        sorted_wrt (<) (map fst kvs) \<and> set kvs = tree_pairs t)"

subsection \<open>Examples\<close>


section \<open>Verified properties: LRU-K replacer\<close>

lemmas lruk_defs = lruk_scenario_def LRUKReplacer_init_def RecordAccess_def SetEvictable_def
  Evict_def entries_at_def new_entry_def Size_def

text \<open>
  C5 (as stated): with \<open>k = 2\<close>, after the accesses 1,2,3,1,2,3,1,2 and marking frames
  1, 2, 3 evictable, three evictions return 3, then 2, then 1, and \<open>Size()\<close> is 0.
  The code does not do this, whatever a fresh descriptor's evictability is: frame 3 has
  been accessed twice as well, so all three frames are in the list of frames with at
  least \<open>k\<close> accesses, ordered by their latest access, and frame 1 leaves before frame 2.
\<close>

theorem C5_evict_order_counterexample:
  "lruk_scenario True 3 \<noteq> Inr ([Some 3, Some 2, Some 1], 0) \<and>
   lruk_scenario False 3 \<noteq> Inr ([Some 3, Some 2, Some 1], 0)"
  by (simp add: lruk_defs numeral_3_eq_3)

text \<open>
  C5 (amended): for a replacer that accepts the frames 1, 2, 3, the three evictions
  return frame 3, then frame 1, then frame 2, and no fourth frame is left; \<open>Size()\<close>
  afterwards is 0 when a fresh descriptor is evictable (\<open>RecordAccess\<close> counts every newly
  tracked frame in \<open>curr_size_\<close>), and 3 when it is not.
\<close>

theorem C5_evict_order:
  "3 \<le> n \<Longrightarrow> lruk_scenario ev0 n = Inr ([Some 3, Some 1, Some 2], if ev0 then 0 else 3)"
  by (simp add: lruk_defs numeral_3_eq_3)

theorem C5_evict_order_witness:
  "3 \<le> (3::nat) \<and> lruk_scenario True 3 = Inr ([Some 3, Some 1, Some 2], 0)"
  using C5_evict_order [of 3 True] by simp

section \<open>Verified properties: extendible hash table\<close>

subsection \<open>Masks, bits and the redirection loop\<close>

lemma low_mask_mod: "(a::nat) AND (push_bit n 1 - 1) = a mod 2 ^ n"
proof -
  have "push_bit n (1::nat) - 1 = mask n"
    by (simp add: push_bit_eq_mult mask_eq_exp_minus_1)
  then show ?thesis
    by (simp add: take_bit_eq_mod flip: take_bit_eq_mask)
qed

lemma IndexOf_mod: "IndexOf_nat h t key = h key mod 2 ^ global_depth t"
  unfolding IndexOf_nat_def Let_def by (rule low_mask_mod)

lemma bit_test: "((a::nat) AND push_bit n 1 \<noteq> 0) = bit a n"
  by (simp add: push_bit_eq_mult and_exp_eq_0_iff_not_bit)

lemma mod_Suc_pow_eq_iff:
  "((a::nat) mod 2 ^ Suc n = b mod 2 ^ Suc n) = (a mod 2 ^ n = b mod 2 ^ n \<and> bit a n = bit b n)"
proof -
  define x y m where "x = a mod 2 ^ n" and "y = b mod 2 ^ n" and "m = (2::nat) ^ n"
  have xm: "x < m" and ym: "y < m" by (simp_all add: x_def y_def m_def)
  have A: "a mod 2 ^ Suc n = m * of_bool (bit a n) + x"
    using take_bit_Suc_from_most[of n a] by (simp only: take_bit_eq_mod x_def m_def)
  have B: "b mod 2 ^ Suc n = m * of_bool (bit b n) + y"
    using take_bit_Suc_from_most[of n b] by (simp only: take_bit_eq_mod y_def m_def)
  show ?thesis
    unfolding A B x_def[symmetric] y_def[symmetric] using xm ym
    by (cases "bit a n"; cases "bit b n") auto
qed

lemma mod_pow_le_eq: "m \<le> n \<Longrightarrow> (a::nat) mod 2 ^ n = b mod 2 ^ n \<Longrightarrow> a mod 2 ^ m = b mod 2 ^ m"
  by (metis le_imp_power_dvd mod_mod_cancel)

lemma redirect_unfold:
  "redirect (2 ^ od) p0 p1 i d =
     (if i < length d then redirect (2 ^ od) p0 p1 (i + 2 ^ od) (d[i := (if bit i od then p1 else p0)])
      else d)"
  by (subst redirect.simps) (simp add: and_exp_eq_0_iff_not_bit)

lemma redirect_length [simp]: "length (redirect (2 ^ od) p0 p1 i d) = length d"
proof (induction "length d - i" arbitrary: i d rule: less_induct)
  case less
  show ?case
  proof (cases "i < length d")
    case True
    then have "length (d[i := (if bit i od then p1 else p0)]) - (i + 2 ^ od) < length d - i"
      by (auto intro!: diff_less_mono2)
    from less[OF this] True show ?thesis by (subst redirect_unfold) simp
  next
    case False
    then show ?thesis by (subst redirect_unfold) simp
  qed
qed

lemma redirect_nth:
  "j < length d \<Longrightarrow>
   redirect (2 ^ od) p0 p1 i d ! j =
     (if i \<le> j \<and> (j - i) mod 2 ^ od = 0 then (if bit j od then p1 else p0) else d ! j)"
proof (induction "length d - i" arbitrary: i d rule: less_induct)
  case less
  show ?case
  proof (cases "i < length d")
    case False
    with less(2) show ?thesis by (subst redirect_unfold) simp
  next
    case True
    let ?d = "d[i := (if bit i od then p1 else p0)]"
    have "length ?d - (i + 2 ^ od) < length d - i"
      using True by (auto intro!: diff_less_mono2)
    from less(1)[OF this] less(2)
    have ih: "redirect (2 ^ od) p0 p1 (i + 2 ^ od) ?d ! j =
        (if i + 2 ^ od \<le> j \<and> (j - (i + 2 ^ od)) mod 2 ^ od = 0 then (if bit j od then p1 else p0)
         else ?d ! j)"
      by simp
    have step: "redirect (2 ^ od) p0 p1 i d ! j = redirect (2 ^ od) p0 p1 (i + 2 ^ od) ?d ! j"
      using True by (subst redirect_unfold) simp
    show ?thesis
    proof (cases "j = i")
      case True
      then show ?thesis using step ih \<open>i < length d\<close> by simp
    next
      case False
      have "(i \<le> j \<and> (j - i) mod 2 ^ od = 0) = (i + 2 ^ od \<le> j \<and> (j - (i + 2 ^ od)) mod 2 ^ od = 0)"
      proof (cases "i + 2 ^ od \<le> j")
        case True
        then have "j - i = (j - (i + 2 ^ od)) + 2 ^ od" by simp
        then show ?thesis using True by (metis add_leD1 mod_add_self2)
      next
        case False
        then have "i \<le> j \<Longrightarrow> j - i < 2 ^ od" by simp
        then show ?thesis using False \<open>j \<noteq> i\<close> by auto
      qed
      then show ?thesis using step ih False by simp
    qed
  qed
qed

lemma redirect_nth_mod:
  assumes "j < length d" "i < 2 ^ od"
  shows "redirect (2 ^ od) p0 p1 i d ! j =
     (if j mod 2 ^ od = i then (if bit j od then p1 else p0) else d ! j)"
proof -
  have "(i \<le> j \<and> (j - i) mod 2 ^ od = 0) = (j mod 2 ^ od = i)"
  proof
    assume a: "i \<le> j \<and> (j - i) mod 2 ^ od = 0"
    then have "j = (j - i) + i" by simp
    then have "j mod 2 ^ od = i mod 2 ^ od" using a by (metis add.commute add_cancel_right_left mod_add_left_eq) 
    then show "j mod 2 ^ od = i" using assms(2) by simp
  next
    assume a: "j mod 2 ^ od = i"
    then have "i \<le> j" by (metis mod_less_eq_dividend)
    moreover have "(j - i) mod 2 ^ od = 0" using a by (metis minus_mod_eq_mult_div mod_mult_self1_is_0)
    ultimately show "i \<le> j \<and> (j - i) mod 2 ^ od = 0" by simp
  qed
  then show ?thesis using redirect_nth[OF assms(1)] by simp
qed

subsection \<open>Buckets\<close>

lemma list_find_map_of: "list_find xs key = map_of xs key"
  by (induction xs) auto

lemma list_assign_None: "(list_assign xs key val = None) = (key \<notin> fst ` set xs)"
  by (induction xs) force+

lemma list_assign_Some:
  "list_assign xs key val = Some ys \<Longrightarrow>
     map fst ys = map fst xs \<and> map_of ys = (map_of xs)(key \<mapsto> val)"
  by (induction xs arbitrary: ys) (auto split: if_splits simp: fun_upd_twist[of _ key])

lemma list_erase_props:
  "list_erase xs key = (ys, r) \<Longrightarrow>
     r = (key \<in> fst ` set xs) \<and> length ys \<le> length xs \<and> set ys \<subseteq> set xs \<and>
     (distinct (map fst xs) \<longrightarrow> distinct (map fst ys) \<and> map_of ys = (map_of xs)(key := None))"
proof (induction xs arbitrary: ys r)
  case Nil
  then show ?case by auto
next
  case (Cons a xs)
  obtain k v where a: "a = (k, v)" by (cases a)
  show ?case
  proof (cases "k = key")
    case True
    with Cons.prems a show ?thesis
      by (auto simp: map_of_eq_None_iff[THEN iffD2] fun_upd_idem intro!: ext)
  next
    case False
    obtain zs r' where e: "list_erase xs key = (zs, r')" by (cases "list_erase xs key")
    from Cons.IH[OF e] have ih: "r' = (key \<in> fst ` set xs)" "length zs \<le> length xs" "set zs \<subseteq> set xs"
      "distinct (map fst xs) \<Longrightarrow> distinct (map fst zs) \<and> map_of zs = (map_of xs)(key := None)"
      by auto
    have ys: "ys = (k, v) # zs" "r = r'" using Cons.prems a False e by auto
    have "fst ` set zs \<subseteq> fst ` set xs" using ih(3) by auto
    then show ?thesis using ih ys a False by (auto intro!: ext)
  qed
qed

lemma Bucket_Find_map_of: "Bucket_Find b key = map_of (b_list b) key"
  by (simp add: Bucket_Find_def list_find_map_of)

lemma Bucket_Insert_new:
  "key \<notin> fst ` set (b_list b) \<Longrightarrow> \<not> IsFull b \<Longrightarrow>
   Bucket_Insert b key val = (b\<lparr>b_list := b_list b @ [(key, val)]\<rparr>, True)"
  using list_assign_None[of "b_list b" key val] by (simp add: Bucket_Insert_def)

lemma distribute_filter:
  "distinct (map fst (b_list b0) @ map fst (b_list b1) @ map fst xs) \<Longrightarrow>
   length (b_list b0) + length xs \<le> b_size b0 \<Longrightarrow>
   length (b_list b1) + length xs \<le> b_size b1 \<Longrightarrow>
   distribute h (2 ^ od) xs b0 b1 =
     (b0\<lparr>b_list := b_list b0 @ filter (\<lambda>(k, v). \<not> bit (h k) od) xs\<rparr>,
      b1\<lparr>b_list := b_list b1 @ filter (\<lambda>(k, v). bit (h k) od) xs\<rparr>)"
proof (induction xs arbitrary: b0 b1)
  case Nil
  then show ?case by simp
next
  case (Cons a xs)
  obtain k v where a: "a = (k, v)" by (cases a)
  show ?case
  proof (cases "bit (h k) od")
    case True
    have nf: "\<not> IsFull b1" using Cons.prems(3) by (auto simp: IsFull_def)
    have nk: "k \<notin> fst ` set (b_list b1)" using Cons.prems(1) a by auto
    let ?b1 = "b1\<lparr>b_list := b_list b1 @ [(k, v)]\<rparr>"
    have "distribute h (2 ^ od) (a # xs) b0 b1 = distribute h (2 ^ od) xs b0 ?b1"
      using True a Bucket_Insert_new[OF nk nf] by (simp add: and_exp_eq_0_iff_not_bit)
    also have "\<dots> = (b0\<lparr>b_list := b_list b0 @ filter (\<lambda>(k, v). \<not> bit (h k) od) xs\<rparr>,
      ?b1\<lparr>b_list := b_list ?b1 @ filter (\<lambda>(k, v). bit (h k) od) xs\<rparr>)"
      using Cons.prems a by (intro Cons.IH) auto
    finally show ?thesis using True a by simp
  next
    case False
    have nf: "\<not> IsFull b0" using Cons.prems(2) by (auto simp: IsFull_def)
    have nk: "k \<notin> fst ` set (b_list b0)" using Cons.prems(1) a by auto
    let ?b0 = "b0\<lparr>b_list := b_list b0 @ [(k, v)]\<rparr>"
    have "distribute h (2 ^ od) (a # xs) b0 b1 = distribute h (2 ^ od) xs ?b0 b1"
      using False a Bucket_Insert_new[OF nk nf] by (simp add: and_exp_eq_0_iff_not_bit)
    also have "\<dots> = (?b0\<lparr>b_list := b_list ?b0 @ filter (\<lambda>(k, v). \<not> bit (h k) od) xs\<rparr>,
      b1\<lparr>b_list := b_list b1 @ filter (\<lambda>(k, v). bit (h k) od) xs\<rparr>)"
      using Cons.prems a by (intro Cons.IH) auto
    finally show ?thesis using False a by simp
  qed
qed

subsection \<open>The table invariant\<close>

lemma low_mask_mod': "(a::nat) AND (2 ^ n - Suc 0) = a mod 2 ^ n"
  using low_mask_mod[of a n] by (simp add: push_bit_eq_mult)

lemma nth_append_self: "j < 2 * length d \<Longrightarrow> (d @ d) ! j = d ! (j mod length d)"
  by (cases "j < length d") (auto simp: nth_append le_mod_geq)

lemma table_invD:
  assumes "table_inv h t"
  shows "length (dir t) = 2 ^ global_depth t"
    and "i < length (dir t) \<Longrightarrow> dir t ! i < length (bstore t)"
    and "i < length (dir t) \<Longrightarrow> b_depth (bucket_at t i) \<le> global_depth t"
    and "i < length (dir t) \<Longrightarrow> j < length (dir t) \<Longrightarrow>
          (dir t ! i = dir t ! j) = (i mod 2 ^ b_depth (bucket_at t i) = j mod 2 ^ b_depth (bucket_at t i))"
    and "i < length (dir t) \<Longrightarrow> k \<in> fst ` set (b_list (bucket_at t i)) \<Longrightarrow>
          h k mod 2 ^ b_depth (bucket_at t i) = i mod 2 ^ b_depth (bucket_at t i)"
    and "i < length (dir t) \<Longrightarrow> bucket_ok (bucket_size t) (bucket_at t i)"
  using assms unfolding table_inv_def dir_inv_def GetLocalDepth_def by blast+

lemma table_invI:
  assumes "length (dir t) = 2 ^ global_depth t"
    and "\<And>i. i < length (dir t) \<Longrightarrow> dir t ! i < length (bstore t)"
    and "\<And>i. i < length (dir t) \<Longrightarrow> b_depth (bucket_at t i) \<le> global_depth t"
    and "\<And>i j. i < length (dir t) \<Longrightarrow> j < length (dir t) \<Longrightarrow>
          (dir t ! i = dir t ! j) = (i mod 2 ^ b_depth (bucket_at t i) = j mod 2 ^ b_depth (bucket_at t i))"
    and "\<And>i k. i < length (dir t) \<Longrightarrow> k \<in> fst ` set (b_list (bucket_at t i)) \<Longrightarrow>
          h k mod 2 ^ b_depth (bucket_at t i) = i mod 2 ^ b_depth (bucket_at t i)"
    and "\<And>i. i < length (dir t) \<Longrightarrow> bucket_ok (bucket_size t) (bucket_at t i)"
  shows "table_inv h t"
  using assms unfolding table_inv_def dir_inv_def GetLocalDepth_def by blast

lemma IndexOf_less: "table_inv h t \<Longrightarrow> IndexOf_nat h t key < length (dir t)"
  by (simp add: IndexOf_mod table_invD(1))

lemma table_inv_init: "table_inv h (ExtendibleHashTable_init bsz)"
  by (rule table_invI)
     (simp_all add: ExtendibleHashTable_init_def bucket_at_def Bucket_init_def bucket_ok_def)

lemma Expansion_bucket_at:
  "table_inv h t \<Longrightarrow> j < 2 * length (dir t) \<Longrightarrow>
   bucket_at (Expansion t) j = bucket_at t (j mod 2 ^ global_depth t)"
  by (simp add: bucket_at_def Expansion_def nth_append_self table_invD(1))

lemma Expansion_dir_nth:
  "table_inv h t \<Longrightarrow> j < 2 * length (dir t) \<Longrightarrow>
   dir (Expansion t) ! j = dir t ! (j mod 2 ^ global_depth t)"
  by (simp add: Expansion_def nth_append_self table_invD(1))

lemma mod_mod_pow: "m \<le> n \<Longrightarrow> (a::nat) mod 2 ^ n mod 2 ^ m = a mod 2 ^ m"
  by (simp add: le_imp_power_dvd mod_mod_cancel)

lemma Expansion_inv:
  assumes inv: "table_inv h t"
  shows "table_inv h (Expansion t)"
proof (rule table_invI)
  let ?L = "length (dir t)"
  let ?g = "global_depth t"
  have L: "?L = 2 ^ ?g" by (rule table_invD(1)[OF inv])
  have len: "length (dir (Expansion t)) = 2 * ?L" by (simp add: Expansion_def)
  have gd: "global_depth (Expansion t) = Suc ?g" by (simp add: Expansion_def)
  have bs: "bucket_size (Expansion t) = bucket_size t" "bstore (Expansion t) = bstore t"
    by (simp_all add: Expansion_def)
  show "length (dir (Expansion t)) = 2 ^ global_depth (Expansion t)"
    by (simp add: len gd L)
  have red: "j mod 2 ^ ?g < ?L" for j by (simp add: L)
  fix i assume i: "i < length (dir (Expansion t))"
  then have i2: "i < 2 * ?L" by (simp add: len)
  note bi = Expansion_bucket_at[OF inv i2] 
  note di = Expansion_dir_nth[OF inv i2]
  have dle: "b_depth (bucket_at t (i mod 2 ^ ?g)) \<le> ?g" by (rule table_invD(3)[OF inv red])
  show "dir (Expansion t) ! i < length (bstore (Expansion t))"
    by (simp add: di bs table_invD(2)[OF inv red])
  show "b_depth (bucket_at (Expansion t) i) \<le> global_depth (Expansion t)"
    using dle by (simp add: bi gd)
  show "bucket_ok (bucket_size (Expansion t)) (bucket_at (Expansion t) i)"
    by (simp add: bi bs table_invD(6)[OF inv red])
  { fix k assume "k \<in> fst ` set (b_list (bucket_at (Expansion t) i))"
    then have "k \<in> fst ` set (b_list (bucket_at t (i mod 2 ^ ?g)))" by (simp add: bi)
    from table_invD(5)[OF inv red this]
    show "h k mod 2 ^ b_depth (bucket_at (Expansion t) i) = i mod 2 ^ b_depth (bucket_at (Expansion t) i)"
      by (simp add: bi mod_mod_pow[OF dle]) }
  { fix j assume "j < length (dir (Expansion t))"
    then have j2: "j < 2 * ?L" by (simp add: len)
    show "(dir (Expansion t) ! i = dir (Expansion t) ! j) =
        (i mod 2 ^ b_depth (bucket_at (Expansion t) i) = j mod 2 ^ b_depth (bucket_at (Expansion t) i))"
      using table_invD(4)[OF inv red red, of i j]
      by (simp add: bi di Expansion_dir_nth[OF inv j2] mod_mod_pow[OF dle]) }
qed

lemma Expansion_IndexOf_bucket:
  assumes inv: "table_inv h t"
  shows "bucket_at (Expansion t) (IndexOf_nat h (Expansion t) k) = bucket_at t (IndexOf_nat h t k)"
proof -
  have "IndexOf_nat h (Expansion t) k < 2 * length (dir t)"
    using IndexOf_less[OF Expansion_inv[OF inv], of k] by (simp add: Expansion_def)
  moreover have "IndexOf_nat h (Expansion t) k mod 2 ^ global_depth t = IndexOf_nat h t k"
    using mod_mod_pow[of "global_depth t" "Suc (global_depth t)" "h k"]
    by (simp add: IndexOf_mod Expansion_def)
  ultimately show ?thesis using Expansion_bucket_at[OF inv] by simp
qed

lemma Expansion_Find: "table_inv h t \<Longrightarrow> Find_nat h (Expansion t) k = Find_nat h t k"
  by (simp add: Find_nat_def Expansion_IndexOf_bucket)

subsection \<open>Splitting a bucket\<close>

lemma map_of_filter_key:
  "map_of (filter (\<lambda>(k, v). Q k) xs) k = (if Q k then map_of xs k else None)"
  by (induction xs) auto

lemma bit_mod_pow: "m < n \<Longrightarrow> bit ((a::nat) mod 2 ^ n) m = bit a m"
  by (simp add: bit_take_bit_iff flip: take_bit_eq_mod)

text \<open>The state after \<open>RedistributeBucket_nat\<close> on the bucket of a key, written out.\<close>

lemma Redistribute_unfold:
  assumes inv: "table_inv h t" and i: "i < length (dir t)"
  shows "RedistributeBucket_nat h t (dir t ! i) key =
    t\<lparr>num_buckets := num_buckets t + 1,
      bstore := bstore t @
        [\<lparr>b_size = bucket_size t, b_depth = Suc (b_depth (bucket_at t i)),
          b_list = filter (\<lambda>(k, v). \<not> bit (h k) (b_depth (bucket_at t i))) (b_list (bucket_at t i))\<rparr>,
         \<lparr>b_size = bucket_size t, b_depth = Suc (b_depth (bucket_at t i)),
          b_list = filter (\<lambda>(k, v). bit (h k) (b_depth (bucket_at t i))) (b_list (bucket_at t i))\<rparr>],
      dir := redirect (2 ^ b_depth (bucket_at t i)) (length (bstore t)) (Suc (length (bstore t)))
               (h key mod 2 ^ b_depth (bucket_at t i)) (dir t)\<rparr>"
proof -
  have ok: "bucket_ok (bucket_size t) (bucket_at t i)" by (rule table_invD(6)[OF inv i])
  have d: "distribute h (2 ^ b_depth (bucket_at t i)) (b_list (bucket_at t i))
            (Bucket_init (bucket_size t) (Suc (b_depth (bucket_at t i))))
            (Bucket_init (bucket_size t) (Suc (b_depth (bucket_at t i)))) =
          (\<lparr>b_size = bucket_size t, b_depth = Suc (b_depth (bucket_at t i)),
          b_list = filter (\<lambda>(k, v). \<not> bit (h k) (b_depth (bucket_at t i))) (b_list (bucket_at t i))\<rparr>,
         \<lparr>b_size = bucket_size t, b_depth = Suc (b_depth (bucket_at t i)),
          b_list = filter (\<lambda>(k, v). bit (h k) (b_depth (bucket_at t i))) (b_list (bucket_at t i))\<rparr>)"
    using ok by (subst distribute_filter) (auto simp: Bucket_init_def bucket_ok_def)
  show ?thesis
    unfolding RedistributeBucket_nat_def bucket_at_def[symmetric]
    by (simp add: Let_def d low_mask_mod')
qed

lemma Redistribute_fields:
  assumes inv: "table_inv h t" and i: "i < length (dir t)"
  shows "global_depth (RedistributeBucket_nat h t (dir t ! i) key) = global_depth t"
    and "bucket_size (RedistributeBucket_nat h t (dir t ! i) key) = bucket_size t"
    and "length (dir (RedistributeBucket_nat h t (dir t ! i) key)) = length (dir t)"
    and "length (bstore (RedistributeBucket_nat h t (dir t ! i) key)) = length (bstore t) + 2"
  unfolding Redistribute_unfold[OF inv i] by simp_all

lemma IndexOf_mod_depth:
  assumes inv: "table_inv h t"
  shows "IndexOf_nat h t key mod 2 ^ b_depth (bucket_at t (IndexOf_nat h t key)) =
         h key mod 2 ^ b_depth (bucket_at t (IndexOf_nat h t key))"
proof -
  define D where "D = b_depth (bucket_at t (IndexOf_nat h t key))"
  have d: "D \<le> global_depth t"
    unfolding D_def by (rule table_invD(3)[OF inv IndexOf_less[OF inv]])
  have "IndexOf_nat h t key mod 2 ^ D = h key mod 2 ^ global_depth t mod 2 ^ D"
    by (simp only: IndexOf_mod)
  also have "\<dots> = h key mod 2 ^ D" by (rule mod_mod_pow[OF d])
  finally show ?thesis unfolding D_def .
qed

lemma same_bucket_iff:
  assumes inv: "table_inv h t" and j: "j < length (dir t)"
  shows "(j mod 2 ^ b_depth (bucket_at t (IndexOf_nat h t key)) = h key mod 2 ^ b_depth (bucket_at t (IndexOf_nat h t key)))
         = (dir t ! j = dir t ! IndexOf_nat h t key)"
proof -
  define D where "D = b_depth (bucket_at t (IndexOf_nat h t key))"
  have a: "IndexOf_nat h t key mod 2 ^ D = h key mod 2 ^ D"
    unfolding D_def by (rule IndexOf_mod_depth[OF inv])
  have b: "(dir t ! IndexOf_nat h t key = dir t ! j) = (IndexOf_nat h t key mod 2 ^ D = j mod 2 ^ D)"
    unfolding D_def by (rule table_invD(4)[OF inv IndexOf_less[OF inv] j])
  have "(j mod 2 ^ D = h key mod 2 ^ D) = (dir t ! j = dir t ! IndexOf_nat h t key)"
    unfolding a[symmetric] using b by (simp add: eq_commute)
  then show ?thesis unfolding D_def .
qed

lemma Redistribute_dir_nth:
  assumes inv: "table_inv h t" and j: "j < length (dir t)"
  shows "dir (RedistributeBucket_nat h t (dir t ! IndexOf_nat h t key) key) ! j =
     (if dir t ! j = dir t ! IndexOf_nat h t key
      then (if bit j (b_depth (bucket_at t (IndexOf_nat h t key))) then Suc (length (bstore t))
            else length (bstore t))
      else dir t ! j)"
proof -
  define D where "D = b_depth (bucket_at t (IndexOf_nat h t key))"
  have sb: "(j mod 2 ^ D = h key mod 2 ^ D) = (dir t ! j = dir t ! IndexOf_nat h t key)"
    unfolding D_def by (rule same_bucket_iff[OF inv j])
  have "dir (RedistributeBucket_nat h t (dir t ! IndexOf_nat h t key) key) =
        redirect (2 ^ D) (length (bstore t)) (Suc (length (bstore t))) (h key mod 2 ^ D) (dir t)"
    unfolding Redistribute_unfold[OF inv IndexOf_less[OF inv]] D_def by simp
  then have "dir (RedistributeBucket_nat h t (dir t ! IndexOf_nat h t key) key) ! j =
     (if j mod 2 ^ D = h key mod 2 ^ D
      then (if bit j D then Suc (length (bstore t)) else length (bstore t))
      else dir t ! j)"
    by (simp add: redirect_nth_mod[OF j])
  then have "dir (RedistributeBucket_nat h t (dir t ! IndexOf_nat h t key) key) ! j =
     (if dir t ! j = dir t ! IndexOf_nat h t key
      then (if bit j D then Suc (length (bstore t)) else length (bstore t))
      else dir t ! j)"
    by (simp only: sb)
  then show ?thesis unfolding D_def .
qed

lemma Redistribute_bstore:
  assumes inv: "table_inv h t"
  shows "bstore (RedistributeBucket_nat h t (dir t ! IndexOf_nat h t key) key) = bstore t @
        [\<lparr>b_size = bucket_size t, b_depth = Suc (b_depth (bucket_at t (IndexOf_nat h t key))),
          b_list = filter (\<lambda>(k, v). \<not> bit (h k) (b_depth (bucket_at t (IndexOf_nat h t key))))
                     (b_list (bucket_at t (IndexOf_nat h t key)))\<rparr>,
         \<lparr>b_size = bucket_size t, b_depth = Suc (b_depth (bucket_at t (IndexOf_nat h t key))),
          b_list = filter (\<lambda>(k, v). bit (h k) (b_depth (bucket_at t (IndexOf_nat h t key))))
                     (b_list (bucket_at t (IndexOf_nat h t key)))\<rparr>]"
  unfolding Redistribute_unfold[OF inv IndexOf_less[OF inv]] by simp

lemma Redistribute_bucket_at:
  assumes inv: "table_inv h t" and j: "j < length (dir t)"
  shows "bucket_at (RedistributeBucket_nat h t (dir t ! IndexOf_nat h t key) key) j =
     (if dir t ! j = dir t ! IndexOf_nat h t key
      then \<lparr>b_size = bucket_size t, b_depth = Suc (b_depth (bucket_at t (IndexOf_nat h t key))),
            b_list = filter (\<lambda>(k, v). bit (h k) (b_depth (bucket_at t (IndexOf_nat h t key))) =
                                       bit j (b_depth (bucket_at t (IndexOf_nat h t key))))
                       (b_list (bucket_at t (IndexOf_nat h t key)))\<rparr>
      else bucket_at t j)"
proof -
  define D where "D = b_depth (bucket_at t (IndexOf_nat h t key))"
  define ol where "ol = b_list (bucket_at t (IndexOf_nat h t key))"
  define B where "B = dir t ! IndexOf_nat h t key"
  define t' where "t' = RedistributeBucket_nat h t (dir t ! IndexOf_nat h t key) key"
  have lt: "dir t ! j < length (bstore t)" by (rule table_invD(2)[OF inv j])
  have dn: "dir t' ! j = (if dir t ! j = B then (if bit j D then Suc (length (bstore t))
            else length (bstore t)) else dir t ! j)"
    unfolding t'_def B_def D_def by (rule Redistribute_dir_nth[OF inv j])
  have st: "bstore t' = bstore t @
        [\<lparr>b_size = bucket_size t, b_depth = Suc D, b_list = filter (\<lambda>(k, v). \<not> bit (h k) D) ol\<rparr>,
         \<lparr>b_size = bucket_size t, b_depth = Suc D, b_list = filter (\<lambda>(k, v). bit (h k) D) ol\<rparr>]"
    unfolding t'_def D_def ol_def by (rule Redistribute_bstore[OF inv])
  have "bucket_at t' j =
     (if dir t ! j = B
      then \<lparr>b_size = bucket_size t, b_depth = Suc D,
            b_list = filter (\<lambda>(k, v). bit (h k) D = bit j D) ol\<rparr>
      else bucket_at t j)"
    using lt by (simp add: bucket_at_def dn st nth_append)
  then show ?thesis unfolding t'_def B_def D_def ol_def .
qed

lemma Redistribute_inv:
  assumes inv: "table_inv h t"
    and lt: "b_depth (bucket_at t (IndexOf_nat h t key)) < global_depth t"
  shows "table_inv h (RedistributeBucket_nat h t (dir t ! IndexOf_nat h t key) key)"
proof -
  define i0 where "i0 = IndexOf_nat h t key"
  define D where "D = b_depth (bucket_at t i0)"
  define ol where "ol = b_list (bucket_at t i0)"
  define B where "B = dir t ! i0"
  define n where "n = length (bstore t)"
  define t' where "t' = RedistributeBucket_nat h t (dir t ! i0) key"
  have i0: "i0 < length (dir t)" unfolding i0_def by (rule IndexOf_less[OF inv])
  have fl: "global_depth t' = global_depth t" "bucket_size t' = bucket_size t"
    "length (dir t') = length (dir t)" "length (bstore t') = n + 2"
    unfolding t'_def n_def by (rule Redistribute_fields[OF inv i0])+
  have dn: "dir t' ! j = (if dir t ! j = B then (if bit j D then Suc n else n) else dir t ! j)"
    if "j < length (dir t)" for j
    unfolding t'_def B_def D_def n_def i0_def by (rule Redistribute_dir_nth[OF inv that])
  have bk: "bucket_at t' j = (if dir t ! j = B
      then \<lparr>b_size = bucket_size t, b_depth = Suc D,
            b_list = filter (\<lambda>(k, v). bit (h k) D = bit j D) ol\<rparr>
      else bucket_at t j)" if "j < length (dir t)" for j
    unfolding t'_def B_def D_def ol_def i0_def by (rule Redistribute_bucket_at[OF inv that])
  have old1: "j mod 2 ^ D = i0 mod 2 ^ D" if "j < length (dir t)" "dir t ! j = B" for j
    using table_invD(4)[OF inv i0 that(1)] that(2) unfolding B_def D_def by metis
  have old2: "dir t ! j = B" if "j < length (dir t)" "j mod 2 ^ D = i0 mod 2 ^ D" for j
    using table_invD(4)[OF inv i0 that(1)] that(2) unfolding B_def D_def by metis
  have Dlt: "D < global_depth t" using lt unfolding D_def i0_def .
  have okB: "length ol \<le> bucket_size t" "distinct (map fst ol)"
    using table_invD(6)[OF inv i0] unfolding ol_def bucket_ok_def by auto
  have keysB: "h k mod 2 ^ D = i0 mod 2 ^ D" if "k \<in> fst ` set ol" for k
    using table_invD(5)[OF inv i0] that unfolding ol_def D_def by blast
  have "table_inv h t'"
  proof (rule table_invI)
    show "length (dir t') = 2 ^ global_depth t'" by (simp add: fl table_invD(1)[OF inv])
  next
    fix i assume "i < length (dir t')"
    then have i: "i < length (dir t)" by (simp add: fl)
    show "dir t' ! i < length (bstore t')"
      using table_invD(2)[OF inv i] by (simp add: dn[OF i] fl n_def)
  next
    fix i assume "i < length (dir t')"
    then have i: "i < length (dir t)" by (simp add: fl)
    show "b_depth (bucket_at t' i) \<le> global_depth t'"
      using table_invD(3)[OF inv i] Dlt by (simp add: bk[OF i] fl)
  next
    fix i assume "i < length (dir t')"
    then have i: "i < length (dir t)" by (simp add: fl)
    show "bucket_ok (bucket_size t') (bucket_at t' i)"
    proof (cases "dir t ! i = B")
      case True
      have "length (filter (\<lambda>(k, v). bit (h k) D = bit i D) ol) \<le> bucket_size t"
        using okB(1) by (rule le_trans[OF length_filter_le])
      then show ?thesis using True okB(2)
        by (simp add: bk[OF i] fl bucket_ok_def distinct_map_filter)
    next
      case False
      then show ?thesis using table_invD(6)[OF inv i] by (simp add: bk[OF i] fl)
    qed
  next
    fix i k assume "i < length (dir t')" and k: "k \<in> fst ` set (b_list (bucket_at t' i))"
    then have i: "i < length (dir t)" by (simp add: fl)
    show "h k mod 2 ^ b_depth (bucket_at t' i) = i mod 2 ^ b_depth (bucket_at t' i)"
    proof (cases "dir t ! i = B")
      case False
      then show ?thesis using k table_invD(5)[OF inv i, of k] by (simp add: bk[OF i])
    next
      case True
      then have k1: "k \<in> fst ` set ol" and k2: "bit (h k) D = bit i D"
        using k by (auto simp: bk[OF i])
      have "h k mod 2 ^ D = i mod 2 ^ D" using keysB[OF k1] old1[OF i True] by simp
      then have "h k mod 2 ^ Suc D = i mod 2 ^ Suc D"
        using k2 by (simp only: mod_Suc_pow_eq_iff)
      moreover have "b_depth (bucket_at t' i) = Suc D" using True by (simp add: bk[OF i])
      ultimately show ?thesis by (simp only:)
    qed
  next
    fix i j assume "i < length (dir t')" "j < length (dir t')"
    then have i: "i < length (dir t)" and j: "j < length (dir t)" by (simp_all add: fl)
    have li: "dir t ! i < n" and lj: "dir t ! j < n"
      unfolding n_def by (rule table_invD(2)[OF inv i], rule table_invD(2)[OF inv j])
    show "(dir t' ! i = dir t' ! j) =
        (i mod 2 ^ b_depth (bucket_at t' i) = j mod 2 ^ b_depth (bucket_at t' i))"
    proof (cases "dir t ! i = B")
      case False
      note Fi = this
      have di: "dir t' ! i = dir t ! i" and bi: "bucket_at t' i = bucket_at t i"
        using Fi by (simp_all add: dn[OF i] bk[OF i])
      have o: "(dir t ! i = dir t ! j) =
          (i mod 2 ^ b_depth (bucket_at t i) = j mod 2 ^ b_depth (bucket_at t i))"
        by (rule table_invD(4)[OF inv i j])
      show ?thesis
      proof (cases "dir t ! j = B")
        case False
        then have "dir t' ! j = dir t ! j" by (simp add: dn[OF j])
        then show ?thesis unfolding di bi using o by simp
      next
        case True
        then have ne: "dir t ! i \<noteq> dir t ! j" using Fi by simp
        have "dir t' ! j \<ge> n" using True by (simp add: dn[OF j])
        then have "dir t' ! i \<noteq> dir t' ! j" using li unfolding di by simp
        moreover have "i mod 2 ^ b_depth (bucket_at t i) \<noteq> j mod 2 ^ b_depth (bucket_at t i)"
          using o ne by simp
        ultimately show ?thesis unfolding bi by simp
      qed
    next
      case True
      note Ti = this
      have bi: "b_depth (bucket_at t' i) = Suc D" using Ti by (simp add: bk[OF i])
      have di: "dir t' ! i = (if bit i D then Suc n else n)" using Ti by (simp add: dn[OF i])
      have im: "i mod 2 ^ D = i0 mod 2 ^ D" by (rule old1[OF i Ti])
      show ?thesis
      proof (cases "dir t ! j = B")
        case False
        then have "j mod 2 ^ D \<noteq> i0 mod 2 ^ D" using old2[OF j] by blast
        then have "i mod 2 ^ Suc D \<noteq> j mod 2 ^ Suc D"
          using im by (simp only: mod_Suc_pow_eq_iff) simp
        moreover have "dir t' ! j = dir t ! j" using False by (simp add: dn[OF j])
        then have "dir t' ! i \<noteq> dir t' ! j" using lj unfolding di by auto
        ultimately show ?thesis unfolding bi by simp
      next
        case True
        have jm: "j mod 2 ^ D = i0 mod 2 ^ D" by (rule old1[OF j True])
        have "(i mod 2 ^ Suc D = j mod 2 ^ Suc D) = (bit i D = bit j D)"
          using im jm by (simp only: mod_Suc_pow_eq_iff) simp
        moreover have "dir t' ! j = (if bit j D then Suc n else n)" using True by (simp add: dn[OF j])
        then have "(dir t' ! i = dir t' ! j) = (bit i D = bit j D)" unfolding di by auto
        ultimately show ?thesis unfolding bi by simp
      qed
    qed
  qed
  then show ?thesis unfolding t'_def i0_def .
qed

lemma IndexOf_cong: "global_depth t' = global_depth t \<Longrightarrow> IndexOf_nat h t' k = IndexOf_nat h t k"
  by (simp add: IndexOf_nat_def)

lemma Redistribute_IndexOf:
  assumes inv: "table_inv h t"
  shows "IndexOf_nat h (RedistributeBucket_nat h t (dir t ! IndexOf_nat h t key) key) k = IndexOf_nat h t k"
  by (rule IndexOf_cong, rule Redistribute_fields(1)[OF inv IndexOf_less[OF inv]])

lemma bit_IndexOf:
  assumes "D < global_depth t"
  shows "bit (IndexOf_nat h t k) D = bit (h k) D"
  unfolding IndexOf_mod by (rule bit_mod_pow[OF assms])

lemma Redistribute_Find:
  assumes inv: "table_inv h t"
    and lt: "b_depth (bucket_at t (IndexOf_nat h t key)) < global_depth t"
  shows "Find_nat h (RedistributeBucket_nat h t (dir t ! IndexOf_nat h t key) key) k = Find_nat h t k"
proof -
  define i0 where "i0 = IndexOf_nat h t key"
  define j where "j = IndexOf_nat h t k"
  define D where "D = b_depth (bucket_at t i0)"
  define ol where "ol = b_list (bucket_at t i0)"
  define t' where "t' = RedistributeBucket_nat h t (dir t ! i0) key"
  have j: "j < length (dir t)" unfolding j_def by (rule IndexOf_less[OF inv])
  have i0: "i0 < length (dir t)" unfolding i0_def by (rule IndexOf_less[OF inv])
  have bj: "bit j D = bit (h k) D"
    unfolding j_def by (rule bit_IndexOf) (use lt in \<open>simp add: D_def i0_def\<close>)
  have ix: "IndexOf_nat h t' k = j"
    unfolding t'_def i0_def j_def by (rule Redistribute_IndexOf[OF inv])
  have bk: "bucket_at t' j = (if dir t ! j = dir t ! i0
      then \<lparr>b_size = bucket_size t, b_depth = Suc D,
            b_list = filter (\<lambda>(k, v). bit (h k) D = bit j D) ol\<rparr>
      else bucket_at t j)"
    unfolding t'_def D_def ol_def i0_def by (rule Redistribute_bucket_at[OF inv j])
  have same: "bucket_at t j = bucket_at t i0" if "dir t ! j = dir t ! i0"
    using that by (simp add: bucket_at_def)
  have "Find_nat h t' k = map_of (b_list (bucket_at t' j)) k"
    by (simp add: Find_nat_def ix Bucket_Find_map_of)
  also have "\<dots> = map_of (b_list (bucket_at t j)) k"
  proof (cases "dir t ! j = dir t ! i0")
    case True
    then show ?thesis using bj by (simp add: bk same ol_def map_of_filter_key)
  next
    case False
    then show ?thesis by (simp add: bk)
  qed
  also have "\<dots> = Find_nat h t k" by (simp add: Find_nat_def j_def Bucket_Find_map_of)
  finally show ?thesis unfolding t'_def i0_def .
qed

lemma Redistribute_target:
  assumes inv: "table_inv h t"
    and lt: "b_depth (bucket_at t (IndexOf_nat h t key)) < global_depth t"
  shows "bucket_at (RedistributeBucket_nat h t (dir t ! IndexOf_nat h t key) key)
           (IndexOf_nat h (RedistributeBucket_nat h t (dir t ! IndexOf_nat h t key) key) key) =
         \<lparr>b_size = bucket_size t, b_depth = Suc (b_depth (bucket_at t (IndexOf_nat h t key))),
          b_list = filter (\<lambda>(k, v). bit (h k) (b_depth (bucket_at t (IndexOf_nat h t key))) =
                                     bit (h key) (b_depth (bucket_at t (IndexOf_nat h t key))))
                     (b_list (bucket_at t (IndexOf_nat h t key)))\<rparr>"
proof -
  define i0 where "i0 = IndexOf_nat h t key"
  define D where "D = b_depth (bucket_at t i0)"
  define ol where "ol = b_list (bucket_at t i0)"
  define t' where "t' = RedistributeBucket_nat h t (dir t ! i0) key"
  have i0: "i0 < length (dir t)" unfolding i0_def by (rule IndexOf_less[OF inv])
  have bj: "bit i0 D = bit (h key) D"
    unfolding i0_def by (rule bit_IndexOf) (use lt in \<open>simp add: D_def i0_def\<close>)
  have ix: "IndexOf_nat h t' key = i0"
    unfolding t'_def i0_def by (rule Redistribute_IndexOf[OF inv])
  have bk: "bucket_at t' i0 = (if dir t ! i0 = dir t ! i0
      then \<lparr>b_size = bucket_size t, b_depth = Suc D,
            b_list = filter (\<lambda>(k, v). bit (h k) D = bit i0 D) ol\<rparr>
      else bucket_at t i0)"
    unfolding t'_def D_def ol_def i0_def by (rule Redistribute_bucket_at[OF inv i0[unfolded i0_def]])
  have "bucket_at t' (IndexOf_nat h t' key) =
      \<lparr>b_size = bucket_size t, b_depth = Suc D,
       b_list = filter (\<lambda>(k, v). bit (h k) D = bit (h key) D) ol\<rparr>"
    unfolding ix bk bj by simp
  then show ?thesis unfolding t'_def D_def ol_def i0_def .
qed

subsection \<open>The splitting loop\<close>

lemma Insert_loop_unfold:
  "Insert_loop_nat h t key =
     (if IsFull (bucket_at t (IndexOf_nat h t key)) then Insert_loop_nat h (split_step h t key) key
      else Some t)"
  by (subst Insert_loop_nat.simps) (simp add: split_step_def Let_def)

lemma Expansion_dir_old: "i < length (dir t) \<Longrightarrow> dir (Expansion t) ! i = dir t ! i"
  by (simp add: Expansion_def nth_append)

lemma Expansion_dir_IndexOf:
  assumes inv: "table_inv h t"
  shows "dir (Expansion t) ! IndexOf_nat h (Expansion t) key = dir (Expansion t) ! IndexOf_nat h t key"
proof -
  define g where "g = global_depth t"
  have L: "length (dir t) = 2 ^ g" unfolding g_def by (rule table_invD(1)[OF inv])
  have a: "IndexOf_nat h (Expansion t) key = h key mod 2 ^ Suc g"
    by (simp add: IndexOf_mod Expansion_def g_def)
  have b: "IndexOf_nat h t key = h key mod 2 ^ g" by (simp add: IndexOf_mod g_def)
  have lt: "h key mod 2 ^ Suc g < 2 * length (dir t)" by (simp add: L)
  have "dir (Expansion t) ! (h key mod 2 ^ Suc g) = dir t ! (h key mod 2 ^ Suc g mod 2 ^ g)"
    using Expansion_dir_nth[OF inv lt] by (simp add: g_def)
  also have "h key mod 2 ^ Suc g mod 2 ^ g = h key mod 2 ^ g"
    by (rule mod_mod_pow) simp
  also have "dir t ! (h key mod 2 ^ g) = dir (Expansion t) ! (h key mod 2 ^ g)"
    by (rule Expansion_dir_old[symmetric]) (simp add: L)
  finally show ?thesis unfolding a b .
qed

text \<open>The state after one round of the loop.\<close>

lemma split_step_props:
  assumes inv: "table_inv h t"
  shows "table_inv h (split_step h t key)"
    and "Find_nat h (split_step h t key) k = Find_nat h t k"
    and "bucket_size (split_step h t key) = bucket_size t"
    and "bucket_at (split_step h t key) (IndexOf_nat h (split_step h t key) key) =
         \<lparr>b_size = bucket_size t, b_depth = Suc (b_depth (bucket_at t (IndexOf_nat h t key))),
          b_list = filter (\<lambda>(k, v). bit (h k) (b_depth (bucket_at t (IndexOf_nat h t key))) =
                                     bit (h key) (b_depth (bucket_at t (IndexOf_nat h t key))))
                     (b_list (bucket_at t (IndexOf_nat h t key)))\<rparr>"
proof -
  define i0 where "i0 = IndexOf_nat h t key"
  define D where "D = b_depth (bucket_at t i0)"
  define t1 where "t1 = (if D = global_depth t then Expansion t else t)"
  have i0: "i0 < length (dir t)" unfolding i0_def by (rule IndexOf_less[OF inv])
  have Dle: "D \<le> global_depth t" unfolding D_def by (rule table_invD(3)[OF inv i0])
  have inv1: "table_inv h t1" unfolding t1_def using inv Expansion_inv[OF inv] by simp
  have tb: "bucket_at t1 (IndexOf_nat h t1 key) = bucket_at t i0"
    unfolding t1_def i0_def using Expansion_IndexOf_bucket[OF inv] by simp
  have dd: "dir t1 ! i0 = dir t1 ! IndexOf_nat h t1 key"
    unfolding t1_def i0_def using Expansion_dir_IndexOf[OF inv] by simp
  have lt1: "b_depth (bucket_at t1 (IndexOf_nat h t1 key)) < global_depth t1"
    unfolding tb using Dle by (auto simp: t1_def D_def Expansion_def)
  have ss: "split_step h t key = RedistributeBucket_nat h t1 (dir t1 ! IndexOf_nat h t1 key) key"
    unfolding dd[symmetric] by (simp add: split_step_def Let_def t1_def D_def i0_def)
  have bs1: "bucket_size t1 = bucket_size t" by (simp add: t1_def Expansion_def)
  have f1: "Find_nat h t1 k = Find_nat h t k" unfolding t1_def using Expansion_Find[OF inv] by simp
  show "table_inv h (split_step h t key)"
    unfolding ss by (rule Redistribute_inv[OF inv1 lt1])
  show "Find_nat h (split_step h t key) k = Find_nat h t k"
    unfolding ss Redistribute_Find[OF inv1 lt1] by (rule f1)
  show "bucket_size (split_step h t key) = bucket_size t"
    unfolding ss Redistribute_fields(2)[OF inv1 IndexOf_less[OF inv1]] by (rule bs1)
  have "bucket_at (split_step h t key) (IndexOf_nat h (split_step h t key) key) =
         \<lparr>b_size = bucket_size t, b_depth = Suc (b_depth (bucket_at t i0)),
          b_list = filter (\<lambda>(k, v). bit (h k) (b_depth (bucket_at t i0)) =
                                     bit (h key) (b_depth (bucket_at t i0)))
                     (b_list (bucket_at t i0))\<rparr>"
    unfolding ss Redistribute_target[OF inv1 lt1] tb bs1 ..
  then show "bucket_at (split_step h t key) (IndexOf_nat h (split_step h t key) key) =
         \<lparr>b_size = bucket_size t, b_depth = Suc (b_depth (bucket_at t (IndexOf_nat h t key))),
          b_list = filter (\<lambda>(k, v). bit (h k) (b_depth (bucket_at t (IndexOf_nat h t key))) =
                                     bit (h key) (b_depth (bucket_at t (IndexOf_nat h t key))))
                     (b_list (bucket_at t (IndexOf_nat h t key)))\<rparr>"
    unfolding i0_def .
qed

lemma Insert_loop_correct:
  assumes run: "Insert_loop_nat h t key = Some t'" and inv: "table_inv h t"
  shows "table_inv h t' \<and> (\<forall>k. Find_nat h t' k = Find_nat h t k) \<and> bucket_size t' = bucket_size t \<and>
         \<not> IsFull (bucket_at t' (IndexOf_nat h t' key))"
proof -
  have "table_inv h t \<longrightarrow>
        table_inv h t' \<and> (\<forall>k. Find_nat h t' k = Find_nat h t k) \<and> bucket_size t' = bucket_size t \<and>
         \<not> IsFull (bucket_at t' (IndexOf_nat h t' key))"
  proof (rule Insert_loop_nat.raw_induct[where P = "\<lambda>h t key t'. table_inv h t \<longrightarrow>
        table_inv h t' \<and> (\<forall>k. Find_nat h t' k = Find_nat h t k) \<and> bucket_size t' = bucket_size t \<and>
         \<not> IsFull (bucket_at t' (IndexOf_nat h t' key))", OF _ run])
    fix loop :: "('a \<Rightarrow> nat) \<Rightarrow> ('a, 'b) ExtendibleHashTable \<Rightarrow> 'a \<Rightarrow> ('a, 'b) ExtendibleHashTable option"
    fix h t key t'
    assume IH: "\<And>h t key t'. loop h t key = Some t' \<Longrightarrow> table_inv h t \<longrightarrow>
        table_inv h t' \<and> (\<forall>k. Find_nat h t' k = Find_nat h t k) \<and> bucket_size t' = bucket_size t \<and>
         \<not> IsFull (bucket_at t' (IndexOf_nat h t' key))"
    assume eq: "(let idx = IndexOf_nat h t key
      in if IsFull (bucket_at t idx)
         then let local_depth = b_depth (bucket_at t idx);
                  t1 = if local_depth = global_depth t then Expansion t else t
              in loop h (RedistributeBucket_nat h t1 (dir t1 ! idx) key) key
         else Some t) = Some t'"
    show "table_inv h t \<longrightarrow>
        table_inv h t' \<and> (\<forall>k. Find_nat h t' k = Find_nat h t k) \<and> bucket_size t' = bucket_size t \<and>
         \<not> IsFull (bucket_at t' (IndexOf_nat h t' key))"
    proof
      assume inv: "table_inv h t"
      show "table_inv h t' \<and> (\<forall>k. Find_nat h t' k = Find_nat h t k) \<and> bucket_size t' = bucket_size t \<and>
         \<not> IsFull (bucket_at t' (IndexOf_nat h t' key))"
      proof (cases "IsFull (bucket_at t (IndexOf_nat h t key))")
        case False
        then show ?thesis using eq inv by (simp add: Let_def)
      next
        case True
        then have "loop h (split_step h t key) key = Some t'"
          using eq by (simp add: Let_def split_step_def)
        from IH[OF this] split_step_props(1)[OF inv]
        show ?thesis by (simp add: split_step_props(2,3)[OF inv])
      qed
    qed
  qed
  then show ?thesis using inv by simp
qed

lemma Insert_loop_diverges:
  assumes inv: "table_inv h t" and full: "IsFull (bucket_at t (IndexOf_nat h t key))"
    and same: "\<forall>k \<in> target_keys h t key. h k = h key"
  shows "Insert_loop_nat h t key = None"
proof (cases "Insert_loop_nat h t key")
  case None
  then show ?thesis .
next
  case (Some t')
  have "\<not> (table_inv h t \<and> IsFull (bucket_at t (IndexOf_nat h t key)) \<and>
           (\<forall>k \<in> target_keys h t key. h k = h key))"
  proof (rule Insert_loop_nat.raw_induct[where P = "\<lambda>h t key t'.
      \<not> (table_inv h t \<and> IsFull (bucket_at t (IndexOf_nat h t key)) \<and>
           (\<forall>k \<in> target_keys h t key. h k = h key))", OF _ Some])
    fix loop :: "('a \<Rightarrow> nat) \<Rightarrow> ('a, 'b) ExtendibleHashTable \<Rightarrow> 'a \<Rightarrow> ('a, 'b) ExtendibleHashTable option"
    fix h t key t'
    assume IH: "\<And>h t key t'. loop h t key = Some t' \<Longrightarrow>
      \<not> (table_inv h t \<and> IsFull (bucket_at t (IndexOf_nat h t key)) \<and>
           (\<forall>k \<in> target_keys h t key. h k = h key))"
    assume eq: "(let idx = IndexOf_nat h t key
      in if IsFull (bucket_at t idx)
         then let local_depth = b_depth (bucket_at t idx);
                  t1 = if local_depth = global_depth t then Expansion t else t
              in loop h (RedistributeBucket_nat h t1 (dir t1 ! idx) key) key
         else Some t) = Some t'"
    show "\<not> (table_inv h t \<and> IsFull (bucket_at t (IndexOf_nat h t key)) \<and>
           (\<forall>k \<in> target_keys h t key. h k = h key))"
    proof
      assume Q: "table_inv h t \<and> IsFull (bucket_at t (IndexOf_nat h t key)) \<and>
           (\<forall>k \<in> target_keys h t key. h k = h key)"
      then have inv: "table_inv h t" and full: "IsFull (bucket_at t (IndexOf_nat h t key))"
        and same: "\<And>k. k \<in> fst ` set (b_list (bucket_at t (IndexOf_nat h t key))) \<Longrightarrow> h k = h key"
        by (auto simp: target_keys_def)
      have "loop h (split_step h t key) key = Some t'"
        using eq full by (simp add: Let_def split_step_def)
      from IH[OF this]
      have nQ: "\<not> (table_inv h (split_step h t key) \<and>
          IsFull (bucket_at (split_step h t key) (IndexOf_nat h (split_step h t key) key)) \<and>
          (\<forall>k \<in> target_keys h (split_step h t key) key. h k = h key))" .
      define ol where "ol = b_list (bucket_at t (IndexOf_nat h t key))"
      define D where "D = b_depth (bucket_at t (IndexOf_nat h t key))"
      have "\<And>x. x \<in> set ol \<Longrightarrow> h (fst x) = h key"
        using same unfolding ol_def by (simp add: rev_image_eqI)
      then have fl: "filter (\<lambda>(k, v). bit (h k) D = bit (h key) D) ol = ol"
        by (auto simp: filter_id_conv)
      have tg: "bucket_at (split_step h t key) (IndexOf_nat h (split_step h t key) key) =
         \<lparr>b_size = bucket_size t, b_depth = Suc D, b_list = ol\<rparr>"
        using split_step_props(4)[OF inv, of key] unfolding ol_def[symmetric] D_def[symmetric] fl .
      have "b_size (bucket_at t (IndexOf_nat h t key)) = bucket_size t"
        using table_invD(6)[OF inv IndexOf_less[OF inv]] by (simp add: bucket_ok_def)
      then have "length ol = bucket_size t" using full by (simp add: IsFull_def ol_def)
      then have "IsFull (bucket_at (split_step h t key) (IndexOf_nat h (split_step h t key) key))"
        unfolding tg by (simp add: IsFull_def)
      moreover have "\<forall>k \<in> target_keys h (split_step h t key) key. h k = h key"
        unfolding target_keys_def tg using same by (simp add: ol_def)
      ultimately show False using nQ split_step_props(1)[OF inv] by blast
    qed
  qed
  then show ?thesis using assms by simp
qed

lemma ex_diff_bit:
  assumes "(a::nat) \<noteq> b"
  shows "\<exists>n. a mod 2 ^ n \<noteq> b mod 2 ^ n"
proof -
  have "a < 2 ^ (a + b)" "b < 2 ^ (a + b)"
    by (metis less_exp le_add1 le_add2 power_increasing_iff one_less_numeral_iff semiring_norm(76) order_less_le_trans)+
  then show ?thesis using assms by (intro exI[of _ "a + b"]) simp
qed

lemma Insert_loop_terminates_aux:
  assumes "table_inv h t" and "k' \<in> target_keys h t key"
    and "h k' mod 2 ^ n \<noteq> h key mod 2 ^ n"
  shows "\<exists>t'. Insert_loop_nat h t key = Some t'"
  using assms
proof (induction "n - b_depth (bucket_at t (IndexOf_nat h t key))" arbitrary: t rule: less_induct)
  case less
  note inv = less.prems(1)
  define ol where "ol = b_list (bucket_at t (IndexOf_nat h t key))"
  define D where "D = b_depth (bucket_at t (IndexOf_nat h t key))"
  have k': "k' \<in> fst ` set ol" using less.prems(2) by (simp add: target_keys_def ol_def)
  have i0: "IndexOf_nat h t key < length (dir t)" by (rule IndexOf_less[OF inv])
  have "h k' mod 2 ^ D = IndexOf_nat h t key mod 2 ^ D"
    using table_invD(5)[OF inv i0] k' unfolding ol_def D_def by blast
  also have "\<dots> = h key mod 2 ^ D" unfolding D_def by (rule IndexOf_mod_depth[OF inv])
  finally have eqD: "h k' mod 2 ^ D = h key mod 2 ^ D" .
  have Dn: "D < n"
  proof (rule ccontr)
    assume "\<not> D < n"
    then have "n \<le> D" by simp
    from mod_pow_le_eq[OF this eqD] less.prems(3) show False by simp
  qed
  show ?case
  proof (cases "IsFull (bucket_at t (IndexOf_nat h t key))")
    case False
    then show ?thesis by (subst Insert_loop_unfold) simp
  next
    case True
    define t2 where "t2 = split_step h t key"
    have inv2: "table_inv h t2" unfolding t2_def by (rule split_step_props(1)[OF inv])
    have tg: "bucket_at t2 (IndexOf_nat h t2 key) =
         \<lparr>b_size = bucket_size t, b_depth = Suc D,
          b_list = filter (\<lambda>(k, v). bit (h k) D = bit (h key) D) ol\<rparr>"
      unfolding t2_def ol_def D_def by (rule split_step_props(4)[OF inv])
    have unf: "Insert_loop_nat h t key = Insert_loop_nat h t2 key"
      using True unfolding t2_def by (subst Insert_loop_unfold) simp
    show ?thesis
    proof (cases "bit (h k') D = bit (h key) D")
      case True
      have "k' \<in> target_keys h t2 key"
        unfolding target_keys_def tg using k' True by (auto simp: rev_image_eqI)
      moreover have "n - b_depth (bucket_at t2 (IndexOf_nat h t2 key)) < n - b_depth (bucket_at t (IndexOf_nat h t key))"
        unfolding tg D_def[symmetric] using Dn by simp
      ultimately show ?thesis unfolding unf using less.hyps inv2 less.prems(3) by blast
    next
      case False
      obtain v where kv: "(k', v) \<in> set ol" using k' by auto
      have "length (filter (\<lambda>(k, v). bit (h k) D = bit (h key) D) ol) < length ol"
        by (rule length_filter_less[OF kv]) (use False in simp)
      moreover have "length ol \<le> bucket_size t"
        using table_invD(6)[OF inv i0] by (simp add: bucket_ok_def ol_def)
      ultimately have "\<not> IsFull (bucket_at t2 (IndexOf_nat h t2 key))"
        unfolding tg by (simp add: IsFull_def)
      then show ?thesis unfolding unf by (subst Insert_loop_unfold) simp
    qed
  qed
qed

lemma Insert_loop_terminates:
  assumes "table_inv h t"
    and "\<not> IsFull (bucket_at t (IndexOf_nat h t key)) \<or> (\<exists>k \<in> target_keys h t key. h k \<noteq> h key)"
  shows "\<exists>t'. Insert_loop_nat h t key = Some t'"
proof (cases "IsFull (bucket_at t (IndexOf_nat h t key))")
  case False
  then show ?thesis by (subst Insert_loop_unfold) simp
next
  case True
  then obtain k' where k': "k' \<in> target_keys h t key" "h k' \<noteq> h key" using assms(2) by blast
  from ex_diff_bit[OF k'(2)] obtain n where "h k' mod 2 ^ n \<noteq> h key mod 2 ^ n" ..
  from Insert_loop_terminates_aux[OF assms(1) k'(1) this] show ?thesis .
qed

subsection \<open>Insert_nat and Remove_nat\<close>

lemma set_target_bucket_at:
  assumes inv: "table_inv h t" and j: "j < length (dir t)"
  shows "bucket_at (set_target h t key b) j =
         (if dir t ! j = dir t ! IndexOf_nat h t key then b else bucket_at t j)"
  using table_invD(2)[OF inv j] table_invD(2)[OF inv IndexOf_less[OF inv, of key]]
  by (simp add: set_target_def bucket_at_def)

lemma set_target_fields:
  "dir (set_target h t key b) = dir t" "global_depth (set_target h t key b) = global_depth t"
  "bucket_size (set_target h t key b) = bucket_size t"
  "length (bstore (set_target h t key b)) = length (bstore t)"
  by (simp_all add: set_target_def)

lemma set_target_inv:
  assumes inv: "table_inv h t"
    and dep: "b_depth b = b_depth (bucket_at t (IndexOf_nat h t key))"
    and ok: "bucket_ok (bucket_size t) b"
    and keys: "fst ` set (b_list b) \<subseteq> insert key (fst ` set (b_list (bucket_at t (IndexOf_nat h t key))))"
  shows "table_inv h (set_target h t key b)"
proof -
  define i0 where "i0 = IndexOf_nat h t key"
  define t' where "t' = set_target h t key b"
  have i0: "i0 < length (dir t)" unfolding i0_def by (rule IndexOf_less[OF inv])
  have fl: "dir t' = dir t" "global_depth t' = global_depth t" "bucket_size t' = bucket_size t"
    "length (bstore t') = length (bstore t)"
    unfolding t'_def by (rule set_target_fields)+
  have bk: "bucket_at t' j = (if dir t ! j = dir t ! i0 then b else bucket_at t j)"
    if "j < length (dir t)" for j
    unfolding t'_def i0_def by (rule set_target_bucket_at[OF inv that])
  have same: "bucket_at t j = bucket_at t i0" if "dir t ! j = dir t ! i0" for j
    using that by (simp add: bucket_at_def)
  have dp: "b_depth (bucket_at t' j) = b_depth (bucket_at t j)" if "j < length (dir t)" for j
    using dep same[of j] by (simp add: bk[OF that] i0_def)
  have "table_inv h t'"
  proof (rule table_invI)
    show "length (dir t') = 2 ^ global_depth t'" by (simp add: fl table_invD(1)[OF inv])
  next
    fix i assume "i < length (dir t')"
    then have i: "i < length (dir t)" by (simp add: fl)
    show "dir t' ! i < length (bstore t')" using table_invD(2)[OF inv i] by (simp add: fl)
  next
    fix i assume "i < length (dir t')"
    then have i: "i < length (dir t)" by (simp add: fl)
    show "b_depth (bucket_at t' i) \<le> global_depth t'"
      using table_invD(3)[OF inv i] by (simp add: dp[OF i] fl)
  next
    fix i assume "i < length (dir t')"
    then have i: "i < length (dir t)" by (simp add: fl)
    show "bucket_ok (bucket_size t') (bucket_at t' i)"
      using table_invD(6)[OF inv i] ok by (simp add: bk[OF i] fl)
  next
    fix i j assume "i < length (dir t')" "j < length (dir t')"
    then have i: "i < length (dir t)" and j: "j < length (dir t)" by (simp_all add: fl)
    show "(dir t' ! i = dir t' ! j) =
        (i mod 2 ^ b_depth (bucket_at t' i) = j mod 2 ^ b_depth (bucket_at t' i))"
      unfolding dp[OF i] fl by (rule table_invD(4)[OF inv i j])
  next
    fix i k assume "i < length (dir t')" and k: "k \<in> fst ` set (b_list (bucket_at t' i))"
    then have i: "i < length (dir t)" by (simp add: fl)
    have "h k mod 2 ^ b_depth (bucket_at t i) = i mod 2 ^ b_depth (bucket_at t i)"
    proof (cases "dir t ! i = dir t ! i0")
      case False
      then show ?thesis using k table_invD(5)[OF inv i, of k] by (simp add: bk[OF i])
    next
      case True
      have bi: "bucket_at t i = bucket_at t i0" by (rule same[OF True])
      have im: "i0 mod 2 ^ b_depth (bucket_at t i0) = i mod 2 ^ b_depth (bucket_at t i0)"
        using table_invD(4)[OF inv i0 i] True by simp
      have "k \<in> insert key (fst ` set (b_list (bucket_at t i0)))"
        using k keys True by (auto simp: bk[OF i] i0_def)
      then have "h k mod 2 ^ b_depth (bucket_at t i0) = i0 mod 2 ^ b_depth (bucket_at t i0)"
      proof
        assume "k = key"
        then show ?thesis using IndexOf_mod_depth[OF inv, of key] by (simp add: i0_def)
      next
        assume "k \<in> fst ` set (b_list (bucket_at t i0))"
        then show ?thesis by (rule table_invD(5)[OF inv i0])
      qed
      then show ?thesis unfolding bi im .
    qed
    then show "h k mod 2 ^ b_depth (bucket_at t' i) = i mod 2 ^ b_depth (bucket_at t' i)"
      unfolding dp[OF i] .
  qed
  then show ?thesis unfolding t'_def .
qed

lemma set_target_Find:
  assumes inv: "table_inv h t"
  shows "Find_nat h (set_target h t key b) k =
         (if dir t ! IndexOf_nat h t k = dir t ! IndexOf_nat h t key then map_of (b_list b) k
          else Find_nat h t k)"
proof -
  have "IndexOf_nat h (set_target h t key b) k = IndexOf_nat h t k"
    by (rule IndexOf_cong) (simp add: set_target_def)
  then show ?thesis
    by (simp add: Find_nat_def Bucket_Find_map_of set_target_bucket_at[OF inv IndexOf_less[OF inv]])
qed

lemma Find_same_bucket:
  "dir t ! IndexOf_nat h t k = dir t ! IndexOf_nat h t key \<Longrightarrow>
   Find_nat h t k = map_of (b_list (bucket_at t (IndexOf_nat h t key))) k"
  by (simp add: Find_nat_def Bucket_Find_map_of bucket_at_def)

lemma Find_key: "Find_nat h t key = map_of (b_list (bucket_at t (IndexOf_nat h t key))) key"
  by (simp add: Find_nat_def Bucket_Find_map_of)

lemma Bucket_Insert_props:
  assumes ok: "bucket_ok bsz b" and nf: "map_of (b_list b) key \<noteq> None \<or> \<not> IsFull b"
  shows "b_depth (fst (Bucket_Insert b key val)) = b_depth b"
    and "bucket_ok bsz (fst (Bucket_Insert b key val))"
    and "fst ` set (b_list (fst (Bucket_Insert b key val))) \<subseteq> insert key (fst ` set (b_list b))"
    and "map_of (b_list (fst (Bucket_Insert b key val))) = (map_of (b_list b))(key \<mapsto> val)"
proof -
  show "b_depth (fst (Bucket_Insert b key val)) = b_depth b"
    by (simp add: Bucket_Insert_def split: option.splits)
  show "bucket_ok bsz (fst (Bucket_Insert b key val))"
      "fst ` set (b_list (fst (Bucket_Insert b key val))) \<subseteq> insert key (fst ` set (b_list b))"
      "map_of (b_list (fst (Bucket_Insert b key val))) = (map_of (b_list b))(key \<mapsto> val)"
  proof (atomize (full), cases "list_assign (b_list b) key val")
    case (Some ys)
    from list_assign_Some[OF Some] have m: "map fst ys = map fst (b_list b)"
      "map_of ys = (map_of (b_list b))(key \<mapsto> val)" by auto
    have "length ys = length (b_list b)" using m(1) by (metis length_map)
    moreover have "fst ` set ys = fst ` set (b_list b)" using m(1) by (metis set_map)
    ultimately show "bucket_ok bsz (fst (Bucket_Insert b key val)) \<and>
      fst ` set (b_list (fst (Bucket_Insert b key val))) \<subseteq> insert key (fst ` set (b_list b)) \<and>
      map_of (b_list (fst (Bucket_Insert b key val))) = (map_of (b_list b))(key \<mapsto> val)"
      using ok m by (auto simp: Bucket_Insert_def Some bucket_ok_def)
  next
    case None
    then have nk: "key \<notin> fst ` set (b_list b)" by (simp add: list_assign_None)
    then have "map_of (b_list b) key = None" by (simp add: map_of_eq_None_iff)
    then have "\<not> IsFull b" using nf by simp
    moreover have "map_of (b_list b @ [(key, val)]) = (map_of (b_list b))(key \<mapsto> val)"
    proof
      fix x
      show "map_of (b_list b @ [(key, val)]) x = ((map_of (b_list b))(key \<mapsto> val)) x"
        using \<open>map_of (b_list b) key = None\<close>
        by (cases "map_of (b_list b) x") (auto simp: map_add_def)
    qed
    ultimately show "bucket_ok bsz (fst (Bucket_Insert b key val)) \<and>
      fst ` set (b_list (fst (Bucket_Insert b key val))) \<subseteq> insert key (fst ` set (b_list b)) \<and>
      map_of (b_list (fst (Bucket_Insert b key val))) = (map_of (b_list b))(key \<mapsto> val)"
      using ok nk by (auto simp: Bucket_Insert_def None bucket_ok_def IsFull_def)
  qed
qed

lemma same_key_same_slot:
  "k = key \<Longrightarrow> dir t ! IndexOf_nat h t k = dir t ! IndexOf_nat h t key"
  by simp

text \<open>Storing a pair in the bucket of its key, when the bucket has room for it.\<close>

lemma store_pair:
  assumes inv: "table_inv h t"
    and nf: "Find_nat h t key \<noteq> None \<or> \<not> IsFull (bucket_at t (IndexOf_nat h t key))"
  shows "table_inv h (set_target h t key (fst (Bucket_Insert (bucket_at t (IndexOf_nat h t key)) key val)))"
    and "Find_nat h (set_target h t key (fst (Bucket_Insert (bucket_at t (IndexOf_nat h t key)) key val))) k =
         (if k = key then Some val else Find_nat h t k)"
proof -
  define tg where "tg = bucket_at t (IndexOf_nat h t key)"
  define b where "b = fst (Bucket_Insert tg key val)"
  have ok: "bucket_ok (bucket_size t) tg"
    unfolding tg_def by (rule table_invD(6)[OF inv IndexOf_less[OF inv]])
  have nf': "map_of (b_list tg) key \<noteq> None \<or> \<not> IsFull tg"
    using nf unfolding tg_def Find_key .
  note bp = Bucket_Insert_props[OF ok nf', of val, folded b_def]
  have "table_inv h (set_target h t key b)"
    by (rule set_target_inv[OF inv]) (use bp in \<open>simp_all add: tg_def\<close>)
  then show "table_inv h (set_target h t key (fst (Bucket_Insert (bucket_at t (IndexOf_nat h t key)) key val)))"
    unfolding b_def tg_def .
  have "Find_nat h (set_target h t key b) k = (if k = key then Some val else Find_nat h t k)"
  proof (cases "dir t ! IndexOf_nat h t k = dir t ! IndexOf_nat h t key")
    case True
    then show ?thesis
      unfolding set_target_Find[OF inv] using Find_same_bucket[OF True] bp(4)
      by (simp add: tg_def)
  next
    case False
    then have "k \<noteq> key" by auto
    then show ?thesis unfolding set_target_Find[OF inv] using False by simp
  qed
  then show "Find_nat h (set_target h t key (fst (Bucket_Insert (bucket_at t (IndexOf_nat h t key)) key val))) k =
         (if k = key then Some val else Find_nat h t k)"
    unfolding b_def tg_def .
qed

lemma Insert_unfold:
  "Insert_nat h t key val =
     (if Find_nat h t key \<noteq> None
      then Some (set_target h t key (fst (Bucket_Insert (bucket_at t (IndexOf_nat h t key)) key val)))
      else case Insert_loop_nat h t key of None \<Rightarrow> None
           | Some t1 \<Rightarrow> Some (set_target h t1 key
                (fst (Bucket_Insert (bucket_at t1 (IndexOf_nat h t1 key)) key val))))"
  by (auto simp: Insert_nat_def Find_nat_def set_target_def Let_def split: option.splits)

lemma Insert_correct:
  assumes run: "Insert_nat h t key val = Some t'" and inv: "table_inv h t"
  shows "table_inv h t'" and "Find_nat h t' k = (if k = key then Some val else Find_nat h t k)"
proof -
  have "table_inv h t' \<and> Find_nat h t' k = (if k = key then Some val else Find_nat h t k)"
  proof (cases "Find_nat h t key \<noteq> None")
    case True
    then have "t' = set_target h t key (fst (Bucket_Insert (bucket_at t (IndexOf_nat h t key)) key val))"
      using run by (simp add: Insert_unfold)
    then show ?thesis using store_pair[OF inv disjI1[OF True]] by simp
  next
    case False
    then obtain t1 where l: "Insert_loop_nat h t key = Some t1"
      and t': "t' = set_target h t1 key (fst (Bucket_Insert (bucket_at t1 (IndexOf_nat h t1 key)) key val))"
      using run by (auto simp: Insert_unfold split: option.splits)
    from Insert_loop_correct[OF l inv] have inv1: "table_inv h t1"
      and f1: "\<And>k. Find_nat h t1 k = Find_nat h t k"
      and nf: "\<not> IsFull (bucket_at t1 (IndexOf_nat h t1 key))" by auto
    show ?thesis unfolding t' using store_pair[OF inv1 disjI2[OF nf]] by (simp add: f1)
  qed
  then show "table_inv h t'" and "Find_nat h t' k = (if k = key then Some val else Find_nat h t k)"
    by simp_all
qed

lemma Insert_terminates_iff:
  assumes inv: "table_inv h t"
  shows "(\<exists>t'. Insert_nat h t key val = Some t') =
         (Find_nat h t key \<noteq> None \<or> \<not> IsFull (bucket_at t (IndexOf_nat h t key)) \<or>
          (\<exists>k \<in> target_keys h t key. h k \<noteq> h key))"
proof (cases "Find_nat h t key \<noteq> None")
  case True
  then show ?thesis by (simp add: Insert_unfold)
next
  case False
  show ?thesis
  proof (cases "\<not> IsFull (bucket_at t (IndexOf_nat h t key)) \<or> (\<exists>k \<in> target_keys h t key. h k \<noteq> h key)")
    case True
    from Insert_loop_terminates[OF inv True] obtain t1 where "Insert_loop_nat h t key = Some t1" ..
    then show ?thesis using False True by (simp add: Insert_unfold)
  next
    case F2: False
    then have "Insert_loop_nat h t key = None" using Insert_loop_diverges[OF inv] by blast
    then show ?thesis using False F2 by (simp add: Insert_unfold)
  qed
qed

lemma Bucket_Remove_props:
  assumes ok: "bucket_ok bsz b"
  shows "b_depth (fst (Bucket_Remove b key)) = b_depth b"
    and "bucket_ok bsz (fst (Bucket_Remove b key))"
    and "fst ` set (b_list (fst (Bucket_Remove b key))) \<subseteq> fst ` set (b_list b)"
    and "map_of (b_list (fst (Bucket_Remove b key))) = (map_of (b_list b))(key := None)"
    and "snd (Bucket_Remove b key) = (map_of (b_list b) key \<noteq> None)"
proof -
  obtain ys r where e: "list_erase (b_list b) key = (ys, r)" by (cases "list_erase (b_list b) key")
  from list_erase_props[OF e] ok
  have p: "r = (key \<in> fst ` set (b_list b))" "length ys \<le> length (b_list b)"
    "set ys \<subseteq> set (b_list b)" "distinct (map fst ys)" "map_of ys = (map_of (b_list b))(key := None)"
    by (auto simp: bucket_ok_def)
  have br: "Bucket_Remove b key = (if b_list b = [] then (b, False) else (b\<lparr>b_list := ys\<rparr>, r))"
    by (simp add: Bucket_Remove_def e)
  show "b_depth (fst (Bucket_Remove b key)) = b_depth b" by (simp add: br)
  show "bucket_ok bsz (fst (Bucket_Remove b key))"
    using ok p by (auto simp: br bucket_ok_def)
  show "fst ` set (b_list (fst (Bucket_Remove b key))) \<subseteq> fst ` set (b_list b)"
    using p(3) by (auto simp: br)
  show "map_of (b_list (fst (Bucket_Remove b key))) = (map_of (b_list b))(key := None)"
    using p(5) by (auto simp: br)
  show "snd (Bucket_Remove b key) = (map_of (b_list b) key \<noteq> None)"
    using p(1) by (auto simp: br map_of_eq_None_iff)
qed

lemma Remove_unfold:
  "Remove_nat h t key = (set_target h t key (fst (Bucket_Remove (bucket_at t (IndexOf_nat h t key)) key)),
                     snd (Bucket_Remove (bucket_at t (IndexOf_nat h t key)) key))"
  by (simp add: Remove_nat_def set_target_def Let_def split: prod.splits)

lemma Remove_correct:
  assumes inv: "table_inv h t"
  shows "table_inv h (fst (Remove_nat h t key))"
    and "Find_nat h (fst (Remove_nat h t key)) k = (if k = key then None else Find_nat h t k)"
    and "snd (Remove_nat h t key) = (Find_nat h t key \<noteq> None)"
proof -
  define tg where "tg = bucket_at t (IndexOf_nat h t key)"
  define b where "b = fst (Bucket_Remove tg key)"
  have ok: "bucket_ok (bucket_size t) tg"
    unfolding tg_def by (rule table_invD(6)[OF inv IndexOf_less[OF inv]])
  note bp = Bucket_Remove_props[OF ok, of key, folded b_def]
  have r: "fst (Remove_nat h t key) = set_target h t key b"
    by (simp add: Remove_unfold b_def tg_def)
  show "table_inv h (fst (Remove_nat h t key))"
    unfolding r by (rule set_target_inv[OF inv]) (use bp in \<open>auto simp: tg_def\<close>)
  show "Find_nat h (fst (Remove_nat h t key)) k = (if k = key then None else Find_nat h t k)"
  proof (cases "dir t ! IndexOf_nat h t k = dir t ! IndexOf_nat h t key")
    case True
    then show ?thesis
      unfolding r set_target_Find[OF inv] using Find_same_bucket[OF True] bp(4)
      by (simp add: tg_def)
  next
    case False
    then have "k \<noteq> key" by auto
    then show ?thesis unfolding r set_target_Find[OF inv] using False by simp
  qed
  show "snd (Remove_nat h t key) = (Find_nat h t key \<noteq> None)"
    using bp(5) by (simp add: Remove_unfold Find_key tg_def)
qed

subsection \<open>The code's functions and the unbounded ones\<close>

lemma IndexOf_eq:
  "IndexOf h t key = (if global_depth t < 31 then Inr (IndexOf_nat h t key) else Inl Overflow)"
  by (simp add: IndexOf_def IndexOf_nat_def shift_left_one_def Let_def)

lemma Find_eq:
  "Find h t key = (if global_depth t < 31 then Inr (Find_nat h t key) else Inl Overflow)"
  by (simp add: Find_def Find_nat_def IndexOf_eq)

lemma Remove_eq:
  "Remove h t key = (if global_depth t < 31 then Inr (Remove_nat h t key) else Inl Overflow)"
  by (simp add: Remove_def Remove_nat_def IndexOf_eq Let_def split: prod.splits)

lemma RedistributeBucket_eq:
  "RedistributeBucket h t b key =
     (if b_depth (bstore t ! b) < 31 then Inr (RedistributeBucket_nat h t b key) else Inl Overflow)"
  by (simp add: RedistributeBucket_def RedistributeBucket_nat_def shift_left_one_def Let_def
      split: prod.splits)

lemma Remove_nat_depth: "global_depth (fst (Remove_nat h t key)) = global_depth t"
  by (simp add: Remove_unfold set_target_fields)

lemma split_step_depth:
  assumes inv: "table_inv h t"
  shows "global_depth (split_step h t key) =
         (if b_depth (bucket_at t (IndexOf_nat h t key)) = global_depth t then Suc (global_depth t)
          else global_depth t)"
proof -
  define i0 where "i0 = IndexOf_nat h t key"
  define t1 where "t1 = (if b_depth (bucket_at t i0) = global_depth t then Expansion t else t)"
  have i0: "i0 < length (dir t)" unfolding i0_def by (rule IndexOf_less[OF inv])
  have inv1: "table_inv h t1" unfolding t1_def using inv Expansion_inv[OF inv] by simp
  have i1: "i0 < length (dir t1)" using i0 by (simp add: t1_def Expansion_def)
  have ss: "split_step h t key = RedistributeBucket_nat h t1 (dir t1 ! i0) key"
    by (simp add: split_step_def Let_def t1_def i0_def)
  show ?thesis
    unfolding ss Redistribute_fields(1)[OF inv1 i1] i0_def[symmetric]
    by (simp add: t1_def Expansion_def)
qed

text \<open>One round of the loop of the code.\<close>

lemma Insert_loop_round:
  assumes inv: "table_inv h t" and gd: "global_depth t < 31"
  shows "Insert_loop h t key (IndexOf_nat h t key) =
     (if IsFull (bucket_at t (IndexOf_nat h t key))
      then (if global_depth (split_step h t key) < 31
            then Insert_loop h (split_step h t key) key (IndexOf_nat h (split_step h t key) key)
            else Some (Inl Overflow))
      else Some (Inr (t, IndexOf_nat h t key)))"
proof -
  define i0 where "i0 = IndexOf_nat h t key"
  define t1 where "t1 = (if b_depth (bucket_at t i0) = global_depth t then Expansion t else t)"
  have i0: "i0 < length (dir t)" unfolding i0_def by (rule IndexOf_less[OF inv])
  have d1: "dir t1 ! i0 = dir t ! i0"
    using Expansion_dir_old[OF i0] by (simp add: t1_def)
  have b1: "bstore t1 = bstore t" by (simp add: t1_def Expansion_def)
  have "b_depth (bucket_at t i0) \<le> global_depth t" by (rule table_invD(3)[OF inv i0])
  then have lt: "b_depth (bstore t1 ! (dir t1 ! i0)) < 31"
    using gd by (simp add: d1 b1 bucket_at_def)
  have ss: "split_step h t key = RedistributeBucket_nat h t1 (dir t1 ! i0) key"
    by (simp add: split_step_def Let_def t1_def i0_def)
  have r: "RedistributeBucket h t1 (dir t1 ! i0) key = Inr (split_step h t key)"
    unfolding ss using lt by (simp add: RedistributeBucket_eq)
  show ?thesis
    unfolding i0_def[symmetric]
    by (subst Insert_loop.simps) (simp add: Let_def t1_def[symmetric] r IndexOf_eq)
qed

text \<open>
  Where the loop of the code returns, it has computed what the unbounded loop computes,
  and the global depth is still below 31.
\<close>

lemma Insert_loop_agrees:
  assumes run: "Insert_loop h t key idx = Some (Inr (t', idx'))"
    and idx: "idx = IndexOf_nat h t key" and inv: "table_inv h t" and gd: "global_depth t < 31"
  shows "Insert_loop_nat h t key = Some t' \<and> idx' = IndexOf_nat h t' key \<and> global_depth t' < 31"
proof -
  have "idx = IndexOf_nat h t key \<and> table_inv h t \<and> global_depth t < 31 \<longrightarrow>
        (\<forall>t'a idx'a. (Inr (t', idx') :: error + ('a, 'b) ExtendibleHashTable \<times> nat) = Inr (t'a, idx'a) \<longrightarrow>
           Insert_loop_nat h t key = Some t'a \<and> idx'a = IndexOf_nat h t'a key \<and> global_depth t'a < 31)"
  proof (rule Insert_loop.raw_induct[where P = "\<lambda>h t key idx res.
        idx = IndexOf_nat h t key \<and> table_inv h t \<and> global_depth t < 31 \<longrightarrow>
        (\<forall>t' idx'. res = Inr (t', idx') \<longrightarrow>
           Insert_loop_nat h t key = Some t' \<and> idx' = IndexOf_nat h t' key \<and> global_depth t' < 31)",
        OF _ run])
    fix loop :: "('a \<Rightarrow> nat) \<Rightarrow> ('a, 'b) ExtendibleHashTable \<Rightarrow> 'a \<Rightarrow> nat
      \<Rightarrow> (error + ('a, 'b) ExtendibleHashTable \<times> nat) option"
    fix h t key idx res
    assume IH: "\<And>h t key idx res. loop h t key idx = Some res \<Longrightarrow>
        idx = IndexOf_nat h t key \<and> table_inv h t \<and> global_depth t < 31 \<longrightarrow>
        (\<forall>t' idx'. res = Inr (t', idx') \<longrightarrow>
           Insert_loop_nat h t key = Some t' \<and> idx' = IndexOf_nat h t' key \<and> global_depth t' < 31)"
    assume eq: "(if IsFull (bucket_at t idx)
         then let local_depth = b_depth (bucket_at t idx);
                  t1 = if local_depth = global_depth t then Expansion t else t
              in case RedistributeBucket h t1 (dir t1 ! idx) key of
                   Inl e \<Rightarrow> Some (Inl e)
                 | Inr t2 \<Rightarrow> (case IndexOf h t2 key of Inl e \<Rightarrow> Some (Inl e)
                              | Inr idx2 \<Rightarrow> loop h t2 key idx2)
         else Some (Inr (t, idx))) = Some res"
    show "idx = IndexOf_nat h t key \<and> table_inv h t \<and> global_depth t < 31 \<longrightarrow>
        (\<forall>t' idx'. res = Inr (t', idx') \<longrightarrow>
           Insert_loop_nat h t key = Some t' \<and> idx' = IndexOf_nat h t' key \<and> global_depth t' < 31)"
    proof (intro impI allI)
      fix t' idx'
      assume A: "idx = IndexOf_nat h t key \<and> table_inv h t \<and> global_depth t < 31"
        and res: "res = Inr (t', idx')"
      from A have idx: "idx = IndexOf_nat h t key" and inv: "table_inv h t"
        and gd: "global_depth t < 31" by simp_all
      show "Insert_loop_nat h t key = Some t' \<and> idx' = IndexOf_nat h t' key \<and> global_depth t' < 31"
      proof (cases "IsFull (bucket_at t (IndexOf_nat h t key))")
        case False
        then have "t' = t" "idx' = idx" using eq res idx by auto
        then show ?thesis using False idx gd by (subst Insert_loop_unfold) simp
      next
        case True
        define t1 where "t1 = (if b_depth (bucket_at t idx) = global_depth t then Expansion t else t)"
        have i0: "idx < length (dir t)" unfolding idx by (rule IndexOf_less[OF inv])
        have d1: "dir t1 ! idx = dir t ! idx"
          using Expansion_dir_old[OF i0] by (simp add: t1_def)
        have b1: "bstore t1 = bstore t" by (simp add: t1_def Expansion_def)
        have "b_depth (bucket_at t idx) \<le> global_depth t" by (rule table_invD(3)[OF inv i0])
        then have lt: "b_depth (bstore t1 ! (dir t1 ! idx)) < 31"
          using gd by (simp add: d1 b1 bucket_at_def)
        have ss: "split_step h t key = RedistributeBucket_nat h t1 (dir t1 ! idx) key"
          by (simp add: split_step_def Let_def t1_def idx)
        have r: "RedistributeBucket h t1 (dir t1 ! idx) key = Inr (split_step h t key)"
          unfolding ss using lt by (simp add: RedistributeBucket_eq)
        have eq2: "(case IndexOf h (split_step h t key) key of Inl e \<Rightarrow> Some (Inl e)
                    | Inr idx2 \<Rightarrow> loop h (split_step h t key) key idx2) = Some res"
          using eq True by (simp add: idx[symmetric] Let_def t1_def[symmetric] r)
        have gd2: "global_depth (split_step h t key) < 31"
          using eq2 res by (auto simp: IndexOf_eq split: if_splits)
        then have l2: "loop h (split_step h t key) key (IndexOf_nat h (split_step h t key) key) = Some res"
          using eq2 by (simp add: IndexOf_eq)
        from IH[OF l2] split_step_props(1)[OF inv] gd2 res
        have "Insert_loop_nat h (split_step h t key) key = Some t' \<and>
              idx' = IndexOf_nat h t' key \<and> global_depth t' < 31" by simp
        then show ?thesis using True by (subst Insert_loop_unfold) simp
      qed
    qed
  qed
  then show ?thesis using idx inv gd by simp
qed

text \<open>
  The loop of the code on a full bucket whose keys all agree with the new key on the low
  30 bits of their hash values: no split below depth 31 separates them, and the shift
  overflows.
\<close>

lemma Insert_loop_overflow:
  assumes "table_inv h t" and "global_depth t < 31"
    and "IsFull (bucket_at t (IndexOf_nat h t key))"
    and "\<forall>k \<in> target_keys h t key. h k mod 2 ^ 30 = h key mod 2 ^ 30"
  shows "Insert_loop h t key (IndexOf_nat h t key) = Some (Inl Overflow)"
  using assms
proof (induction "31 - b_depth (bucket_at t (IndexOf_nat h t key))" arbitrary: t rule: less_induct)
  case less
  note inv = less.prems(1) and gd = less.prems(2) and full = less.prems(3)
  define ol where "ol = b_list (bucket_at t (IndexOf_nat h t key))"
  define D where "D = b_depth (bucket_at t (IndexOf_nat h t key))"
  define t2 where "t2 = split_step h t key"
  have same: "\<And>x. x \<in> set ol \<Longrightarrow> h (fst x) mod 2 ^ 30 = h key mod 2 ^ 30"
    using less.prems(4) unfolding target_keys_def ol_def by (simp add: rev_image_eqI)
  have i0: "IndexOf_nat h t key < length (dir t)" by (rule IndexOf_less[OF inv])
  have Dle: "D \<le> global_depth t" unfolding D_def by (rule table_invD(3)[OF inv i0])
  have inv2: "table_inv h t2" unfolding t2_def by (rule split_step_props(1)[OF inv])
  have tg: "bucket_at t2 (IndexOf_nat h t2 key) =
         \<lparr>b_size = bucket_size t, b_depth = Suc D,
          b_list = filter (\<lambda>(k, v). bit (h k) D = bit (h key) D) ol\<rparr>"
    unfolding t2_def ol_def D_def by (rule split_step_props(4)[OF inv])
  have gd2: "global_depth t2 = (if D = global_depth t then Suc (global_depth t) else global_depth t)"
    unfolding t2_def D_def by (rule split_step_depth[OF inv])
  have unf: "Insert_loop h t key (IndexOf_nat h t key) =
     (if global_depth t2 < 31 then Insert_loop h t2 key (IndexOf_nat h t2 key) else Some (Inl Overflow))"
    using full unfolding t2_def by (subst Insert_loop_round[OF inv gd]) simp
  show ?case
  proof (cases "global_depth t2 < 31")
    case False
    then show ?thesis unfolding unf by simp
  next
    case True
    then have D30: "D < 30" using gd2 Dle gd by (auto split: if_splits)
    have "bit (h (fst x)) D = bit (h key) D" if "x \<in> set ol" for x
    proof -
      have "h (fst x) mod 2 ^ Suc D = h key mod 2 ^ Suc D"
        by (rule mod_pow_le_eq[OF _ same[OF that]]) (use D30 in simp)
      then show ?thesis unfolding mod_Suc_pow_eq_iff by simp
    qed
    then have fl: "filter (\<lambda>(k, v). bit (h k) D = bit (h key) D) ol = ol"
      by (auto simp: filter_id_conv)
    have "b_size (bucket_at t (IndexOf_nat h t key)) = bucket_size t"
      using table_invD(6)[OF inv i0] by (simp add: bucket_ok_def)
    then have len: "length ol = bucket_size t" using full by (simp add: IsFull_def ol_def)
    have full2: "IsFull (bucket_at t2 (IndexOf_nat h t2 key))"
      unfolding tg fl using len by (simp add: IsFull_def)
    have same2: "\<forall>k \<in> target_keys h t2 key. h k mod 2 ^ 30 = h key mod 2 ^ 30"
      unfolding target_keys_def tg fl using same by auto
    have m: "31 - b_depth (bucket_at t2 (IndexOf_nat h t2 key)) < 31 - b_depth (bucket_at t (IndexOf_nat h t key))"
      unfolding tg D_def[symmetric] using D30 by simp
    from less.hyps[OF m inv2 True full2 same2] True show ?thesis unfolding unf by simp
  qed
qed

text \<open>
  The loop of the code returns when the bucket is not full or holds a key that differs
  from the new key in the low 30 bits of its hash value.
\<close>

lemma Insert_loop_returns:
  assumes "table_inv h t" and "global_depth t < 31"
    and "\<not> IsFull (bucket_at t (IndexOf_nat h t key)) \<or>
         (\<exists>k \<in> target_keys h t key. h k mod 2 ^ 30 \<noteq> h key mod 2 ^ 30)"
  shows "\<exists>t' idx'. Insert_loop h t key (IndexOf_nat h t key) = Some (Inr (t', idx'))"
  using assms
proof (induction "31 - b_depth (bucket_at t (IndexOf_nat h t key))" arbitrary: t rule: less_induct)
  case less
  note inv = less.prems(1) and gd = less.prems(2)
  show ?case
  proof (cases "IsFull (bucket_at t (IndexOf_nat h t key))")
    case False
    then show ?thesis by (subst Insert_loop_round[OF inv gd]) simp
  next
    case True
    then obtain k' where k'0: "k' \<in> target_keys h t key"
      and ne: "h k' mod 2 ^ 30 \<noteq> h key mod 2 ^ 30" using less.prems(3) by blast
    define ol where "ol = b_list (bucket_at t (IndexOf_nat h t key))"
    define D where "D = b_depth (bucket_at t (IndexOf_nat h t key))"
    define t2 where "t2 = split_step h t key"
    have k': "k' \<in> fst ` set ol" using k'0 by (simp add: target_keys_def ol_def)
    have i0: "IndexOf_nat h t key < length (dir t)" by (rule IndexOf_less[OF inv])
    have Dle: "D \<le> global_depth t" unfolding D_def by (rule table_invD(3)[OF inv i0])
    have "h k' mod 2 ^ D = IndexOf_nat h t key mod 2 ^ D"
      using table_invD(5)[OF inv i0] k' unfolding ol_def D_def by blast
    also have "\<dots> = h key mod 2 ^ D" unfolding D_def by (rule IndexOf_mod_depth[OF inv])
    finally have eqD: "h k' mod 2 ^ D = h key mod 2 ^ D" .
    have D30: "D < 30"
    proof (rule ccontr)
      assume "\<not> D < 30"
      then have "30 \<le> D" by simp
      from mod_pow_le_eq[OF this eqD] ne show False by simp
    qed
    have inv2: "table_inv h t2" unfolding t2_def by (rule split_step_props(1)[OF inv])
    have tg: "bucket_at t2 (IndexOf_nat h t2 key) =
         \<lparr>b_size = bucket_size t, b_depth = Suc D,
          b_list = filter (\<lambda>(k, v). bit (h k) D = bit (h key) D) ol\<rparr>"
      unfolding t2_def ol_def D_def by (rule split_step_props(4)[OF inv])
    have "global_depth t2 = (if D = global_depth t then Suc (global_depth t) else global_depth t)"
      unfolding t2_def D_def by (rule split_step_depth[OF inv])
    then have gd2: "global_depth t2 < 31" using D30 gd by (auto split: if_splits)
    have unf: "Insert_loop h t key (IndexOf_nat h t key) = Insert_loop h t2 key (IndexOf_nat h t2 key)"
      using True gd2 unfolding t2_def by (subst Insert_loop_round[OF inv gd]) simp
    have m: "31 - b_depth (bucket_at t2 (IndexOf_nat h t2 key)) < 31 - b_depth (bucket_at t (IndexOf_nat h t key))"
      unfolding tg D_def[symmetric] using D30 by simp
    show ?thesis
    proof (cases "bit (h k') D = bit (h key) D")
      case True
      have "k' \<in> target_keys h t2 key"
        unfolding target_keys_def tg using k' True by (auto simp: rev_image_eqI)
      then have "\<not> IsFull (bucket_at t2 (IndexOf_nat h t2 key)) \<or>
           (\<exists>k \<in> target_keys h t2 key. h k mod 2 ^ 30 \<noteq> h key mod 2 ^ 30)"
        using ne by blast
      from less.hyps[OF m inv2 gd2 this] show ?thesis unfolding unf .
    next
      case False
      obtain v where kv: "(k', v) \<in> set ol" using k' by auto
      have "length (filter (\<lambda>(k, v). bit (h k) D = bit (h key) D) ol) < length ol"
        by (rule length_filter_less[OF kv]) (use False in simp)
      moreover have "length ol \<le> bucket_size t"
        using table_invD(6)[OF inv i0] by (simp add: bucket_ok_def ol_def)
      ultimately have "\<not> IsFull (bucket_at t2 (IndexOf_nat h t2 key))"
        unfolding tg by (simp add: IsFull_def)
      then show ?thesis unfolding unf by (subst Insert_loop_round[OF inv2 gd2]) simp
    qed
  qed
qed

lemma Insert_stored:
  assumes gd: "global_depth t < 31" and f: "Find_nat h t key \<noteq> None"
  shows "Insert h t key val =
         Some (Inr (set_target h t key (fst (Bucket_Insert (bucket_at t (IndexOf_nat h t key)) key val))))"
  using gd f by (auto simp: Insert_def IndexOf_eq Find_nat_def set_target_def split: option.splits)

lemma Insert_absent:
  assumes gd: "global_depth t < 31" and f: "Find_nat h t key = None"
  shows "Insert h t key val =
         (case Insert_loop h t key (IndexOf_nat h t key) of
            None \<Rightarrow> None
          | Some (Inl e) \<Rightarrow> Some (Inl e)
          | Some (Inr (t1, idx1)) \<Rightarrow>
              Some (Inr (t1\<lparr>bstore := (bstore t1)[dir t1 ! idx1 :=
                             fst (Bucket_Insert (bucket_at t1 idx1) key val)]\<rparr>)))"
  using gd f by (simp add: Insert_def IndexOf_eq Find_nat_def)

text \<open>Where \<open>Insert\<close> returns, it has computed what the unbounded \<open>Insert\<close> computes.\<close>

lemma Insert_agrees:
  assumes run: "Insert h t key val = Some (Inr t')"
    and inv: "table_inv h t" and gd: "global_depth t < 31"
  shows "Insert_nat h t key val = Some t'" and "global_depth t' < 31"
proof -
  have "Insert_nat h t key val = Some t' \<and> global_depth t' < 31"
  proof (cases "Find_nat h t key = None")
    case False
    then show ?thesis
      using run gd by (auto simp: Insert_stored[OF gd] Insert_unfold set_target_fields)
  next
    case True
    from run obtain t1 idx1 where l: "Insert_loop h t key (IndexOf_nat h t key) = Some (Inr (t1, idx1))"
      and t': "t' = t1\<lparr>bstore := (bstore t1)[dir t1 ! idx1 :=
                             fst (Bucket_Insert (bucket_at t1 idx1) key val)]\<rparr>"
      unfolding Insert_absent[OF gd True] by (auto split: option.splits sum.splits)
    from Insert_loop_agrees[OF l refl inv gd]
    have n: "Insert_loop_nat h t key = Some t1" and i: "idx1 = IndexOf_nat h t1 key"
      and g: "global_depth t1 < 31" by simp_all
    show ?thesis using True n g by (simp add: Insert_unfold t' i set_target_def)
  qed
  then show "Insert_nat h t key val = Some t'" and "global_depth t' < 31" by simp_all
qed

text \<open>
  \<open>Insert\<close> on a table that satisfies the invariant, with a global depth below 31: it
  returns when the key is stored, or its bucket is not full, or its bucket holds a key
  that differs from it in the low 30 bits of the hash value; otherwise it overflows.
\<close>

lemma Insert_cases:
  assumes inv: "table_inv h t" and gd: "global_depth t < 31"
  shows "Find_nat h t key \<noteq> None \<or> \<not> IsFull (bucket_at t (IndexOf_nat h t key)) \<or>
          (\<exists>k \<in> target_keys h t key. h k mod 2 ^ 30 \<noteq> h key mod 2 ^ 30) \<Longrightarrow>
         \<exists>t'. Insert h t key val = Some (Inr t')"
    and "\<not> (Find_nat h t key \<noteq> None \<or> \<not> IsFull (bucket_at t (IndexOf_nat h t key)) \<or>
          (\<exists>k \<in> target_keys h t key. h k mod 2 ^ 30 \<noteq> h key mod 2 ^ 30)) \<Longrightarrow>
         Insert h t key val = Some (Inl Overflow)"
proof -
  assume c: "Find_nat h t key \<noteq> None \<or> \<not> IsFull (bucket_at t (IndexOf_nat h t key)) \<or>
          (\<exists>k \<in> target_keys h t key. h k mod 2 ^ 30 \<noteq> h key mod 2 ^ 30)"
  show "\<exists>t'. Insert h t key val = Some (Inr t')"
  proof (cases "Find_nat h t key = None")
    case False
    then show ?thesis by (simp add: Insert_stored[OF gd])
  next
    case True
    then have "\<not> IsFull (bucket_at t (IndexOf_nat h t key)) \<or>
          (\<exists>k \<in> target_keys h t key. h k mod 2 ^ 30 \<noteq> h key mod 2 ^ 30)" using c by simp
    from Insert_loop_returns[OF inv gd this] show ?thesis
      unfolding Insert_absent[OF gd True] by auto
  qed
next
  assume c: "\<not> (Find_nat h t key \<noteq> None \<or> \<not> IsFull (bucket_at t (IndexOf_nat h t key)) \<or>
          (\<exists>k \<in> target_keys h t key. h k mod 2 ^ 30 \<noteq> h key mod 2 ^ 30))"
  then have f: "Find_nat h t key = None" and full: "IsFull (bucket_at t (IndexOf_nat h t key))"
    and same: "\<forall>k \<in> target_keys h t key. h k mod 2 ^ 30 = h key mod 2 ^ 30" by auto
  show "Insert h t key val = Some (Inl Overflow)"
    unfolding Insert_absent[OF gd f] Insert_loop_overflow[OF inv gd full same] by simp
qed

lemma ht_run_inv:
  "ht_run h t ops = Some (Inr t') \<Longrightarrow> table_inv h t \<Longrightarrow> global_depth t < 31 \<Longrightarrow>
   table_inv h t' \<and> global_depth t' < 31"
proof (induction ops arbitrary: t)
  case Nil
  then show ?case by simp
next
  case (Cons op ops)
  show ?case
  proof (cases op)
    case (HInsert k v)
    then obtain t1 where i: "Insert h t k v = Some (Inr t1)" and r: "ht_run h t1 ops = Some (Inr t')"
      using Cons.prems(1) by (auto split: option.splits sum.splits)
    note a = Insert_agrees[OF i Cons.prems(2,3)]
    show ?thesis by (rule Cons.IH[OF r Insert_correct(1)[OF a(1) Cons.prems(2)] a(2)])
  next
    case (HRemove k)
    then have r: "ht_run h (fst (Remove_nat h t k)) ops = Some (Inr t')"
      using Cons.prems(1,3) by (simp add: Remove_eq split: prod.splits)
    show ?thesis
      by (rule Cons.IH[OF r Remove_correct(1)[OF Cons.prems(2)]])
        (simp add: Remove_nat_depth Cons.prems(3))
  qed
qed

lemma init_depth: "global_depth (ExtendibleHashTable_init bsz) < 31"
  by (simp add: ExtendibleHashTable_init_def)

subsection \<open>The claims about the table\<close>

text \<open>
  C6: after every sequence of \<open>Insert\<close> and \<open>Remove\<close> calls on a new table (every call
  of which returned), the directory has \<open>2 ^ global_depth\<close> slots, no bucket in it has a
  local depth above the global depth, two slots share their bucket exactly when their
  indices agree on the low \<open>local_depth\<close> bits, and these bits are the low bits of the
  hash value of every key in the bucket.
\<close>

theorem C6_directory_invariant:
  "ht_run h (ExtendibleHashTable_init bsz) ops = Some (Inr t) \<Longrightarrow> dir_inv h t"
  using ht_run_inv [OF _ table_inv_init init_depth] by (auto simp: table_inv_def)

theorem C6_directory_invariant_witness:
  "ht_run int_hash (ExtendibleHashTable_init 2) example_ops = Some (Inr example_table) \<and>
   dir_inv int_hash example_table"
proof -
  have r: "ht_run int_hash (ExtendibleHashTable_init 2) example_ops = Some (Inr example_table)"
    by code_simp
  from r C6_directory_invariant [OF r] show ?thesis by simp
qed




section \<open>Verified properties: buffer pool manager\<close>

text \<open>
  C3: a frame acquired by eviction is reset before it is reused, and the page returned
  by \<open>NewPgImp\<close> never shows bytes of the page that was there before. The code resets
  the victim only inside \<open>if (page->is_dirty_)\<close>: in a pool of one frame, after page 7
  (bytes 1,2,3,4 on disk) was fetched and unpinned clean, \<open>NewPgImp\<close> returns the new
  page 0 with the bytes 1,2,3,4 of page 7 in its buffer.
\<close>

theorem C3_new_page_keeps_victim_bytes:
  "stale_bytes_scenario ev0 = Some (0, [1, 2, 3, 4])"
proof -
  have "stale_bytes_scenario True = Some (0, [1, 2, 3, 4])" by code_simp
  moreover have "stale_bytes_scenario False = Some (0, [1, 2, 3, 4])" by code_simp
  ultimately show ?thesis by (cases ev0) simp_all
qed

subsection \<open>The replacer's invariant\<close>

lemma entries_at_present: "es f = Some e \<Longrightarrow> entries_at ev0 es f = (es, e)"
  by (simp add: entries_at_def)

lemma scan_back_none:
  "\<forall>f \<in> set fs. \<exists>e. es f = Some e \<and> \<not> is_evictable e \<Longrightarrow> scan_back ev0 es fs = (es, None)"
  by (induction fs) (auto simp: entries_at_present)

lemma scan_back_some:
  assumes "\<forall>f \<in> set fs. es f \<noteq> None" and "g \<in> set fs" and "es g = Some eg" and "is_evictable eg"
  shows "\<exists>g' e' rest. scan_back ev0 es fs = (es, Some (g', rest)) \<and> g' \<in> set fs \<and>
           es g' = Some e' \<and> is_evictable e' \<and> rest = remove1 g' fs"
  using assms
proof (induction fs)
  case Nil
  then show ?case by simp
next
  case (Cons f fs)
  obtain e where e: "es f = Some e" using Cons.prems(1) by auto
  show ?case
  proof (cases "is_evictable e")
    case True
    then show ?thesis using e by (auto simp: entries_at_present)
  next
    case False
    then have "g \<noteq> f" using e Cons.prems(3,4) by auto
    then have "g \<in> set fs" using Cons.prems(2) by simp
    from Cons.IH[OF _ this Cons.prems(3,4)] Cons.prems(1)
    obtain g' e' rest where r: "scan_back ev0 es fs = (es, Some (g', rest))" "g' \<in> set fs"
      "es g' = Some e'" "is_evictable e'" "rest = remove1 g' fs" by auto
    have "g' \<noteq> f" using r(3,4) e False by auto
    then show ?thesis using r e False by (auto simp: entries_at_present)
  qed
qed

lemma replacer_invD:
  assumes "replacer_inv r"
  shows "distinct (inf_list r @ kth_list r)"
    and "set (inf_list r) \<union> set (kth_list r) = dom (entries r)"
    and "entries r f = Some e \<Longrightarrow> 1 \<le> hint_count e"
  using assms unfolding replacer_inv_def by blast+

lemma replacer_inv_listed:
  assumes "replacer_inv r" and "f \<in> set (inf_list r) \<union> set (kth_list r)"
  shows "\<exists>e. entries r f = Some e"
  using assms(2) unfolding replacer_invD(2)[OF assms(1)] by auto

lemma replacer_inv_tracked:
  assumes "replacer_inv r" and "entries r f = Some e"
  shows "f \<in> set (inf_list r) \<union> set (kth_list r)"
  using assms(2) unfolding replacer_invD(2)[OF assms(1)] by auto

lemma Evict_none:
  assumes inv: "replacer_inv r" and ne: "\<And>f e. entries r f = Some e \<Longrightarrow> \<not> is_evictable e"
  shows "Evict ev0 r = (r, None)"
proof -
  have a: "\<forall>f \<in> set (rev (inf_list r)). \<exists>e. entries r f = Some e \<and> \<not> is_evictable e"
    using replacer_inv_listed[OF inv] ne by fastforce
  have b: "\<forall>f \<in> set (rev (kth_list r)). \<exists>e. entries r f = Some e \<and> \<not> is_evictable e"
    using replacer_inv_listed[OF inv] ne by fastforce
  show ?thesis
    by (simp add: Evict_def scan_back_none[OF a] scan_back_none[OF b])
qed

lemma set_remove1_rev: "distinct xs \<Longrightarrow> set (rev (remove1 g (rev xs))) = set xs - {g}"
  by simp

lemma Evict_some:
  assumes inv: "replacer_inv r" and f: "entries r f = Some e" "is_evictable e"
  shows "\<exists>g eg r'. Evict ev0 r = (r', Some g) \<and> entries r g = Some eg \<and> is_evictable eg \<and>
           entries r' = (entries r)(g := None) \<and> replacer_inv r' \<and>
           replacer_size r' = replacer_size r \<and> replacer_k r' = replacer_k r"
proof -
  have li: "\<forall>f \<in> set (rev (inf_list r)). entries r f \<noteq> None"
    using replacer_inv_listed[OF inv] by fastforce
  have lk: "\<forall>f \<in> set (rev (kth_list r)). entries r f \<noteq> None"
    using replacer_inv_listed[OF inv] by fastforce
  note d = replacer_invD(1)[OF inv]
  note u = replacer_invD(2)[OF inv]
  show ?thesis
  proof (cases "\<exists>g \<in> set (inf_list r). \<exists>eg. entries r g = Some eg \<and> is_evictable eg")
    case True
    then obtain g0 eg0 where g0: "g0 \<in> set (rev (inf_list r))" "entries r g0 = Some eg0" "is_evictable eg0"
      by auto
    from scan_back_some[OF li g0, of ev0]
    obtain g eg where s: "scan_back ev0 (entries r) (rev (inf_list r)) =
          (entries r, Some (g, remove1 g (rev (inf_list r))))"
      and g: "g \<in> set (inf_list r)" "entries r g = Some eg" "is_evictable eg" by auto
    define r' where "r' = r\<lparr>inf_list := rev (remove1 g (rev (inf_list r))),
        curr_size := curr_size r - 1, entries := (entries r)(g := None)\<rparr>"
    have ev: "Evict ev0 r = (r', Some g)" by (simp add: Evict_def s r'_def)
    have si: "set (inf_list r') = set (inf_list r) - {g}"
      using d by (simp add: r'_def)
    have gk: "g \<notin> set (kth_list r)" using d g(1) by auto
    have "replacer_inv r'"
      unfolding replacer_inv_def
    proof (intro conjI allI impI)
      show "distinct (inf_list r' @ kth_list r')" using d by (auto simp: r'_def)
      show "set (inf_list r') \<union> set (kth_list r') = dom (entries r')"
        unfolding si using u gk by (auto simp: r'_def)
      show "1 \<le> hint_count e" if "entries r' x = Some e" for x e
        using that replacer_invD(3)[OF inv, of x e] by (auto simp: r'_def split: if_splits)
    qed
    then show ?thesis using ev g by (auto simp: r'_def)
  next
    case False
    then have a: "\<forall>f \<in> set (rev (inf_list r)). \<exists>e. entries r f = Some e \<and> \<not> is_evictable e"
      using replacer_inv_listed[OF inv] by fastforce
    have "f \<in> set (inf_list r) \<union> set (kth_list r)" by (rule replacer_inv_tracked[OF inv f(1)])
    then have "f \<in> set (rev (kth_list r))" using False f by auto
    from scan_back_some[OF lk this f, of ev0]
    obtain g eg where s: "scan_back ev0 (entries r) (rev (kth_list r)) =
          (entries r, Some (g, remove1 g (rev (kth_list r))))"
      and g: "g \<in> set (kth_list r)" "entries r g = Some eg" "is_evictable eg" by auto
    define r' where "r' = r\<lparr>kth_list := rev (remove1 g (rev (kth_list r))),
        curr_size := curr_size r - 1, entries := (entries r)(g := None)\<rparr>"
    have ev: "Evict ev0 r = (r', Some g)" by (simp add: Evict_def scan_back_none[OF a] s r'_def)
    have si: "set (kth_list r') = set (kth_list r) - {g}"
      using d by (simp add: r'_def)
    have gk: "g \<notin> set (inf_list r)" using d g(1) by auto
    have "replacer_inv r'"
      unfolding replacer_inv_def
    proof (intro conjI allI impI)
      show "distinct (inf_list r' @ kth_list r')" using d by (auto simp: r'_def)
      show "set (inf_list r') \<union> set (kth_list r') = dom (entries r')"
        unfolding si using u gk by (auto simp: r'_def)
      show "1 \<le> hint_count e" if "entries r' x = Some e" for x e
        using that replacer_invD(3)[OF inv, of x e] by (auto simp: r'_def split: if_splits)
    qed
    then show ?thesis using ev g by (auto simp: r'_def)
  qed
qed

text \<open>A first access always succeeds.\<close>

lemma RecordAccess_fresh:
  assumes "entries r f = None" and "f \<le> int (replacer_size r)"
  shows "\<exists>r'. RecordAccess ev0 r f = Inr r'"
  using assms by (simp add: RecordAccess_def entries_at_def new_entry_def)

text \<open>An access that returns keeps the invariant and changes the descriptor of its frame only.\<close>

lemma RecordAccess_inv:
  assumes inv: "replacer_inv r" and ra: "RecordAccess ev0 r f = Inr r'"
  shows "replacer_inv r' \<and>
           replacer_size r' = replacer_size r \<and> replacer_k r' = replacer_k r \<and>
           (\<forall>g. g \<noteq> f \<longrightarrow> entries r' g = entries r g) \<and>
           (\<exists>e'. entries r' f = Some e' \<and>
                 is_evictable e' = (case entries r f of None \<Rightarrow> ev0 | Some e \<Rightarrow> is_evictable e))"
proof (cases "entries r f")
  case None
  have r': "r' = r\<lparr>entries := (entries r)(f \<mapsto> \<lparr>hint_count = 1, is_evictable = ev0\<rparr>),
      curr_size := curr_size r + 1, inf_list := f # inf_list r\<rparr>"
    using ra None by (auto simp: RecordAccess_def entries_at_def new_entry_def split: if_splits)
  have nf: "f \<notin> set (inf_list r)" "f \<notin> set (kth_list r)"
    using replacer_invD(2)[OF inv] None by auto
  have "replacer_inv r'"
    unfolding replacer_inv_def
  proof (intro conjI allI impI)
    show "distinct (inf_list r' @ kth_list r')" using replacer_invD(1)[OF inv] nf by (auto simp: r')
    show "set (inf_list r') \<union> set (kth_list r') = dom (entries r')"
      using replacer_invD(2)[OF inv] by (auto simp: r')
    show "1 \<le> hint_count e" if "entries r' x = Some e" for x e
      using that replacer_invD(3)[OF inv, of x e] by (auto simp: r' split: if_splits)
  qed
  then show ?thesis using None by (auto simp: r')
next
  case (Some e)
  have h1: "1 \<le> hint_count e" by (rule replacer_invD(3)[OF inv Some])
  define e' where "e' = e\<lparr>hint_count := hint_count e + 1\<rparr>"
  have ne: "is_evictable e' = is_evictable e" "hint_count e' = hint_count e + 1"
    by (simp_all add: e'_def)
  note d = replacer_invD(1)[OF inv]
  note u = replacer_invD(2)[OF inv]
  have fd: "f \<in> dom (entries r)" using Some by auto
  from ra Some h1 consider
      (eq) "f \<in> set (inf_list r)"
           "r' = r\<lparr>entries := (entries r)(f \<mapsto> e'),
               inf_list := remove1 f (inf_list r), kth_list := f # kth_list r\<rparr>"
    | (gt) "f \<in> set (kth_list r)"
           "r' = r\<lparr>entries := (entries r)(f \<mapsto> e'), kth_list := f # remove1 f (kth_list r)\<rparr>"
    | (lt) "r' = r\<lparr>entries := (entries r)(f \<mapsto> e')\<rparr>"
    by (auto simp: RecordAccess_def entries_at_def e'_def Let_def split: if_splits)
  then show ?thesis
  proof cases
    case eq
    have "replacer_inv r'"
      unfolding replacer_inv_def
    proof (intro conjI allI impI)
      show "distinct (inf_list r' @ kth_list r')" using d eq(1) by (auto simp: eq(2))
      show "set (inf_list r') \<union> set (kth_list r') = dom (entries r')"
        using u d eq(1) fd by (auto simp: eq(2))
      show "1 \<le> hint_count ee" if "entries r' x = Some ee" for x ee
        using that replacer_invD(3)[OF inv, of x ee] ne by (auto simp: eq(2) split: if_splits)
    qed
    then show ?thesis using Some ne by (auto simp: eq(2))
  next
    case gt
    have "replacer_inv r'"
      unfolding replacer_inv_def
    proof (intro conjI allI impI)
      show "distinct (inf_list r' @ kth_list r')" using d gt(1) by (auto simp: gt(2))
      show "set (inf_list r') \<union> set (kth_list r') = dom (entries r')"
        using u d gt(1) fd by (auto simp: gt(2))
      show "1 \<le> hint_count ee" if "entries r' x = Some ee" for x ee
        using that replacer_invD(3)[OF inv, of x ee] ne by (auto simp: gt(2) split: if_splits)
    qed
    then show ?thesis using Some ne by (auto simp: gt(2))
  next
    case lt
    have "replacer_inv r'"
      unfolding replacer_inv_def
    proof (intro conjI allI impI)
      show "distinct (inf_list r' @ kth_list r')" using d by (auto simp: lt)
      show "set (inf_list r') \<union> set (kth_list r') = dom (entries r')"
        using u fd by (auto simp: lt)
      show "1 \<le> hint_count ee" if "entries r' x = Some ee" for x ee
        using that replacer_invD(3)[OF inv, of x ee] ne by (auto simp: lt split: if_splits)
    qed
    then show ?thesis using Some ne by (auto simp: lt)
  qed
qed

lemma replacer_inv_set_flag:
  assumes inv: "replacer_inv r" and e: "entries r f = Some e"
  shows "replacer_inv (r\<lparr>curr_size := c, entries := (entries r)(f \<mapsto> e\<lparr>is_evictable := b\<rparr>)\<rparr>)"
  unfolding replacer_inv_def
proof (intro conjI allI impI)
  let ?r = "r\<lparr>curr_size := c, entries := (entries r)(f \<mapsto> e\<lparr>is_evictable := b\<rparr>)\<rparr>"
  show "distinct (inf_list ?r @ kth_list ?r)" using replacer_invD(1)[OF inv] by simp
  show "set (inf_list ?r) \<union> set (kth_list ?r) = dom (entries ?r)"
    using replacer_invD(2)[OF inv] e by auto
  show "1 \<le> hint_count ee" if "entries ?r x = Some ee" for x ee
    using that replacer_invD(3)[OF inv, of x] e by (auto split: if_splits)
qed

lemma SetEvictable_ok:
  assumes inv: "replacer_inv r" and le: "f \<le> int (replacer_size r)"
  shows "\<exists>r'. SetEvictable r f b = Inr r' \<and> replacer_inv r' \<and>
           replacer_size r' = replacer_size r \<and> replacer_k r' = replacer_k r \<and>
           entries r' = (case entries r f of None \<Rightarrow> entries r
                         | Some e \<Rightarrow> (entries r)(f \<mapsto> e\<lparr>is_evictable := b\<rparr>))"
proof (cases "entries r f")
  case None
  then show ?thesis using le inv by (simp add: SetEvictable_def)
next
  case (Some e)
  show ?thesis
  proof (cases "is_evictable e = b")
    case True
    then have "(entries r)(f \<mapsto> e\<lparr>is_evictable := b\<rparr>) = entries r"
      using Some by (auto intro!: ext)
    then show ?thesis using le inv Some True by (simp add: SetEvictable_def)
  next
    case False
    then show ?thesis
      using le Some replacer_inv_set_flag[OF inv Some]
      by (cases b) (auto simp: SetEvictable_def)
  qed
qed

text \<open>A removal that returns keeps the invariant.\<close>

lemma Remove_frame_inv:
  assumes inv: "replacer_inv r" and rf: "Remove_frame r f = Inr r'"
  shows "replacer_inv r' \<and>
           replacer_size r' = replacer_size r \<and> replacer_k r' = replacer_k r \<and>
           (\<forall>g. g \<noteq> f \<longrightarrow> entries r' g = entries r g) \<and>
           (entries r' f = None \<or> entries r' f = entries r f)"
proof -
  note d = replacer_invD(1)[OF inv]
  note u = replacer_invD(2)[OF inv]
  from rf consider
      (same) "r' = r"
    | (inf) "f \<in> set (inf_list r)"
        "r' = r\<lparr>inf_list := remove1 f (inf_list r), curr_size := curr_size r - 1,
                entries := (entries r)(f := None)\<rparr>"
    | (kth) "f \<in> set (kth_list r)"
        "r' = r\<lparr>kth_list := remove1 f (kth_list r), curr_size := curr_size r - 1,
                entries := (entries r)(f := None)\<rparr>"
    by (auto simp: Remove_frame_def split: if_splits option.splits)
  then show ?thesis
  proof cases
    case same
    then show ?thesis using inv by simp
  next
    case inf
    have "replacer_inv r'"
      unfolding replacer_inv_def
    proof (intro conjI allI impI)
      show "distinct (inf_list r' @ kth_list r')" using d by (auto simp: inf(2))
      show "set (inf_list r') \<union> set (kth_list r') = dom (entries r')"
        using u d inf(1) by (auto simp: inf(2))
      show "1 \<le> hint_count ee" if "entries r' x = Some ee" for x ee
        using that replacer_invD(3)[OF inv, of x ee] by (auto simp: inf(2) split: if_splits)
    qed
    then show ?thesis by (auto simp: inf(2))
  next
    case kth
    have "replacer_inv r'"
      unfolding replacer_inv_def
    proof (intro conjI allI impI)
      show "distinct (inf_list r' @ kth_list r')" using d by (auto simp: kth(2))
      show "set (inf_list r') \<union> set (kth_list r') = dom (entries r')"
        using u d kth(1) by (auto simp: kth(2))
      show "1 \<le> hint_count ee" if "entries r' x = Some ee" for x ee
        using that replacer_invD(3)[OF inv, of x ee] by (auto simp: kth(2) split: if_splits)
    qed
    then show ?thesis by (auto simp: kth(2))
  qed
qed

lemma replacer_inv_init: "replacer_inv (LRUKReplacer_init n k)"
  by (simp add: replacer_inv_def LRUKReplacer_init_def)

subsection \<open>The invariant of the pool\<close>

lemma bpm_invD:
  assumes "bpm_inv h s"
  shows "table_inv h (page_table s)"
    and "replacer_inv (replacer s)"
    and "length (pages s) = pool_size s"
    and "replacer_size (replacer s) = pool_size s"
    and "Find_nat h (page_table s) pid = Some f \<Longrightarrow>
           0 \<le> f \<and> nat f < pool_size s \<and> page_id (frame s f) = pid \<and> f \<in> dom (entries (replacer s))"
    and "entries (replacer s) f = Some e \<Longrightarrow> is_evictable e \<Longrightarrow>
           0 \<le> f \<and> nat f < pool_size s \<and> pin_count (frame s f) = 0"
    and "distinct (free_list s)"
    and "f \<in> set (free_list s) \<Longrightarrow> 0 \<le> f \<and> nat f < pool_size s \<and> (\<forall>pid. Find_nat h (page_table s) pid \<noteq> Some f)"
    and "global_depth (page_table s) < 31"
  using assms unfolding bpm_inv_def by blast+

lemma bpm_invI:
  assumes "table_inv h (page_table s)"
    and "replacer_inv (replacer s)"
    and "length (pages s) = pool_size s"
    and "replacer_size (replacer s) = pool_size s"
    and "\<And>pid f. Find_nat h (page_table s) pid = Some f \<Longrightarrow>
           0 \<le> f \<and> nat f < pool_size s \<and> page_id (frame s f) = pid \<and> f \<in> dom (entries (replacer s))"
    and "\<And>f e. entries (replacer s) f = Some e \<Longrightarrow> is_evictable e \<Longrightarrow>
           0 \<le> f \<and> nat f < pool_size s \<and> pin_count (frame s f) = 0"
    and "distinct (free_list s)"
    and "\<And>f. f \<in> set (free_list s) \<Longrightarrow> 0 \<le> f \<and> nat f < pool_size s \<and> (\<forall>pid. Find_nat h (page_table s) pid \<noteq> Some f)"
    and "global_depth (page_table s) < 31"
  shows "bpm_inv h s"
  using assms unfolding bpm_inv_def by blast

text \<open>In a pool with the invariant the page table's \<open>Find\<close> and \<open>Remove\<close> do not overflow.\<close>

lemma Find_bpm: "bpm_inv h s \<Longrightarrow> Find h (page_table s) pid = Inr (Find_nat h (page_table s) pid)"
  by (simp add: Find_eq bpm_invD(9))

lemma Remove_bpm: "bpm_inv h s \<Longrightarrow> Remove h (page_table s) pid = Inr (Remove_nat h (page_table s) pid)"
  by (simp add: Remove_eq bpm_invD(9))

lemma set_frame_simps [simp]:
  "pool_size (set_frame s f p) = pool_size s"
  "page_table (set_frame s f p) = page_table s"
  "replacer (set_frame s f p) = replacer s"
  "free_list (set_frame s f p) = free_list s"
  "next_page_id (set_frame s f p) = next_page_id s"
  "disk (set_frame s f p) = disk s"
  "length (pages (set_frame s f p)) = length (pages s)"
  by (simp_all add: set_frame_def)

lemma frame_set_frame:
  "nat f < length (pages s) \<Longrightarrow> 0 \<le> f \<Longrightarrow> 0 \<le> g \<Longrightarrow>
   frame (set_frame s f p) g = (if g = f then p else frame s g)"
  by (auto simp: frame_def set_frame_def)

lemma frame_upd_simps [simp]:
  "frame (s\<lparr>replacer := r\<rparr>) f = frame s f"
  "frame (s\<lparr>page_table := t\<rparr>) f = frame s f"
  "frame (s\<lparr>free_list := l\<rparr>) f = frame s f"
  "frame (s\<lparr>next_page_id := n\<rparr>) f = frame s f"
  "frame (s\<lparr>disk := d\<rparr>) f = frame s f"
  by (simp_all add: frame_def)

lemma Find_init: "Find_nat h (ExtendibleHashTable_init bsz) k = None"
  by (simp add: Find_nat_def ExtendibleHashTable_init_def IndexOf_nat_def bucket_at_def Bucket_init_def Bucket_Find_def)

lemma bpm_inv_init: "bpm_inv h (BufferPoolManagerInstance_init n k bsz pb d)"
proof (rule bpm_invI)
  let ?s = "BufferPoolManagerInstance_init n k bsz pb d"
  show "table_inv h (page_table ?s)" by (simp add: BufferPoolManagerInstance_init_def table_inv_init)
  show "replacer_inv (replacer ?s)"
    by (simp add: BufferPoolManagerInstance_init_def replacer_inv_init)
  show "length (pages ?s) = pool_size ?s" by (simp add: BufferPoolManagerInstance_init_def)
  show "replacer_size (replacer ?s) = pool_size ?s"
    by (simp add: BufferPoolManagerInstance_init_def LRUKReplacer_init_def)
  show "distinct (free_list ?s)"
    by (simp add: BufferPoolManagerInstance_init_def distinct_map)
  show "0 \<le> f \<and> nat f < pool_size ?s \<and> page_id (frame ?s f) = pid \<and> f \<in> dom (entries (replacer ?s))"
    if "Find_nat h (page_table ?s) pid = Some f" for pid f
    using that by (simp add: BufferPoolManagerInstance_init_def Find_init)
  show "0 \<le> f \<and> nat f < pool_size ?s \<and> pin_count (frame ?s f) = 0"
    if "entries (replacer ?s) f = Some e" for f e
    using that by (simp add: BufferPoolManagerInstance_init_def LRUKReplacer_init_def)
  show "0 \<le> f \<and> nat f < pool_size ?s \<and> (\<forall>pid. Find_nat h (page_table ?s) pid \<noteq> Some f)"
    if "f \<in> set (free_list ?s)" for f
    using that by (auto simp: BufferPoolManagerInstance_init_def Find_init)
  show "global_depth (page_table ?s) < 31"
    by (simp add: BufferPoolManagerInstance_init_def init_depth)
qed

text \<open>Changes of a frame that keep its page id and pin count, and changes of the disk, keep
  the invariant.\<close>

lemma bpm_inv_frame_content:
  assumes inv: "bpm_inv h s" and f: "0 \<le> f" "nat f < pool_size s"
    and p: "page_id p = page_id (frame s f)" "pin_count p = pin_count (frame s f)"
  shows "bpm_inv h (set_frame (s\<lparr>disk := d\<rparr>) f p)"
proof -
  define s' where "s' = set_frame (s\<lparr>disk := d\<rparr>) f p"
  have fr: "frame s' g = (if g = f then p else frame s g)" if "0 \<le> g" for g
    using that f bpm_invD(3)[OF inv] by (simp add: s'_def frame_set_frame)
  have same: "page_table s' = page_table s" "replacer s' = replacer s" "pool_size s' = pool_size s"
    "free_list s' = free_list s" "length (pages s') = length (pages s)"
    by (simp_all add: s'_def)
  have "bpm_inv h s'"
  proof (rule bpm_invI)
    show "table_inv h (page_table s')" unfolding same by (rule bpm_invD(1)[OF inv])
    show "replacer_inv (replacer s')" unfolding same by (rule bpm_invD(2)[OF inv])
    show "length (pages s') = pool_size s'" unfolding same by (rule bpm_invD(3)[OF inv])
    show "replacer_size (replacer s') = pool_size s'" unfolding same by (rule bpm_invD(4)[OF inv])
    show "distinct (free_list s')" unfolding same by (rule bpm_invD(7)[OF inv])
    show "0 \<le> g \<and> nat g < pool_size s' \<and> page_id (frame s' g) = pid \<and> g \<in> dom (entries (replacer s'))"
      if "Find_nat h (page_table s') pid = Some g" for pid g
      using bpm_invD(5)[OF inv that[unfolded same]] p by (auto simp: same fr)
    show "0 \<le> g \<and> nat g < pool_size s' \<and> pin_count (frame s' g) = 0"
      if "entries (replacer s') g = Some e" "is_evictable e" for g e
      using bpm_invD(6)[OF inv that(1)[unfolded same] that(2)] p by (auto simp: same fr)
    show "0 \<le> g \<and> nat g < pool_size s' \<and> (\<forall>pid. Find_nat h (page_table s') pid \<noteq> Some g)"
      if "g \<in> set (free_list s')" for g
      using bpm_invD(8)[OF inv that[unfolded same]] by (simp add: same)
    show "global_depth (page_table s') < 31" unfolding same by (rule bpm_invD(9)[OF inv])
  qed
  then show ?thesis unfolding s'_def .
qed

lemma FlushPgImp_inv:
  assumes inv: "bpm_inv h s" and r: "FlushPgImp h s pid = Some (Inr (s', b))"
  shows "bpm_inv h s'"
proof (cases "Find_nat h (page_table s) pid")
  case None
  then show ?thesis using r inv by (auto simp: FlushPgImp_def Find_bpm[OF inv] split: if_splits)
next
  case (Some f)
  from bpm_invD(5)[OF inv Some] have f: "0 \<le> f" "nat f < pool_size s" by auto
  have "s' = set_frame (s\<lparr>disk := (disk s)(pid := data (frame s f))\<rparr>) f ((frame s f)\<lparr>is_dirty := False\<rparr>)"
    using r Some by (auto simp: FlushPgImp_def Find_bpm[OF inv] Let_def split: if_splits)
  then show ?thesis using bpm_inv_frame_content[OF inv f] by simp
qed

lemma flush_frames_inv:
  "bpm_inv h s \<Longrightarrow> \<forall>i \<in> set js. i < pool_size s \<Longrightarrow> bpm_inv h (flush_frames js s)"
proof (induction js arbitrary: s)
  case Nil
  then show ?case by simp
next
  case (Cons i js)
  define p where "p = pages s ! i"
  show ?case
  proof (cases "page_id p \<noteq> INVALID_PAGE_ID")
    case False
    then show ?thesis using Cons by (simp add: p_def Let_def)
  next
    case True
    define s1 where "s1 = set_frame (s\<lparr>disk := (disk s)(page_id p := data p)\<rparr>) (int i) (p\<lparr>is_dirty := False\<rparr>)"
    have i: "i < pool_size s" using Cons.prems(2) by simp
    have "bpm_inv h s1"
      unfolding s1_def by (rule bpm_inv_frame_content[OF Cons.prems(1)]) (use i in \<open>simp_all add: p_def frame_def\<close>)
    moreover have "pool_size s1 = pool_size s" by (simp add: s1_def)
    ultimately have "bpm_inv h (flush_frames js s1)" using Cons.prems(2) by (intro Cons.IH) auto
    moreover have "flush_frames (i # js) s = flush_frames js s1"
      using True by (simp add: p_def[symmetric] Let_def s1_def set_frame_def)
    ultimately show ?thesis by simp
  qed
qed

lemma FlushAllPgsImp_inv: "bpm_inv h s \<Longrightarrow> bpm_inv h (FlushAllPgsImp s)"
  unfolding FlushAllPgsImp_def by (rule flush_frames_inv) auto

text \<open>What \<open>record_and_pin\<close> does to the replacer and to the frame, where it returns.\<close>

lemma record_and_pin_effect:
  assumes ri: "replacer_inv (replacer s)" and le: "f \<le> int (replacer_size (replacer s))"
    and rp: "record_and_pin ev0 s f = Inr s'"
  shows "\<exists>r2. s' = set_frame (s\<lparr>replacer := r2\<rparr>) f
                     ((frame s f)\<lparr>pin_count := pin_count (frame s f) + 1\<rparr>) \<and>
         replacer_inv r2 \<and> replacer_size r2 = replacer_size (replacer s) \<and>
         (\<forall>g. g \<noteq> f \<longrightarrow> entries r2 g = entries (replacer s) g) \<and>
         (\<exists>e'. entries r2 f = Some e' \<and> \<not> is_evictable e')"
proof -
  from rp obtain r1 where ra: "RecordAccess ev0 (replacer s) f = Inr r1"
    by (auto simp: record_and_pin_def split: sum.splits)
  from RecordAccess_inv[OF ri ra] obtain e1 where
    r1: "replacer_inv r1" "replacer_size r1 = replacer_size (replacer s)"
      "\<And>g. g \<noteq> f \<Longrightarrow> entries r1 g = entries (replacer s) g" "entries r1 f = Some e1"
    by auto
  have le1: "f \<le> int (replacer_size r1)" using le r1(2) by simp
  from SetEvictable_ok[OF r1(1) le1, of False] r1(4) obtain r2 where
    r2: "SetEvictable r1 f False = Inr r2" "replacer_inv r2" "replacer_size r2 = replacer_size r1"
      "entries r2 = (entries r1)(f \<mapsto> e1\<lparr>is_evictable := False\<rparr>)"
    by auto
  show ?thesis
    by (rule exI[of _ r2]) (use rp ra r1 r2 in \<open>simp add: record_and_pin_def\<close>)
qed

text \<open>On a frame that the replacer does not track, \<open>record_and_pin\<close> returns.\<close>

lemma record_and_pin_fresh:
  assumes ri: "replacer_inv (replacer s)" and le: "f \<le> int (replacer_size (replacer s))"
    and fresh: "entries (replacer s) f = None"
  shows "\<exists>s'. record_and_pin ev0 s f = Inr s'"
proof -
  from RecordAccess_fresh[OF fresh le, of ev0] obtain r1 where
    ra: "RecordAccess ev0 (replacer s) f = Inr r1" by auto
  from RecordAccess_inv[OF ri ra] have r1: "replacer_inv r1"
    "replacer_size r1 = replacer_size (replacer s)" by auto
  have le1: "f \<le> int (replacer_size r1)" using le r1(2) by simp
  from SetEvictable_ok[OF r1(1) le1, of False] obtain r2 where
    "SetEvictable r1 f False = Inr r2" by auto
  then show ?thesis using ra by (simp add: record_and_pin_def)
qed

text \<open>
  A state that differs from a state with the invariant in one frame, which keeps its
  page id and is pinned, and in the replacer, where this frame is not evictable.
\<close>

lemma bpm_inv_pinned_frame:
  assumes inv: "bpm_inv h s" and g: "0 \<le> g" "nat g < pool_size s"
    and ri: "replacer_inv r2" "replacer_size r2 = replacer_size (replacer s)"
      "\<And>f. f \<noteq> g \<Longrightarrow> entries r2 f = entries (replacer s) f"
      "entries r2 g = Some e'" "\<not> is_evictable e'"
    and res: "Find_nat h (page_table s) pid = Some g \<Longrightarrow> page_id p = pid" 
    and s': "pages s' = (pages s)[nat g := p]" "page_table s' = page_table s" "replacer s' = r2"
      "free_list s' = free_list s" "pool_size s' = pool_size s"
    and pidp: "page_id p = page_id (frame s g)"
  shows "bpm_inv h s'"
proof (rule bpm_invI)
  have fr: "frame s' f = (if f = g then p else frame s f)" if "0 \<le> f" for f
    using that g bpm_invD(3)[OF inv] by (auto simp: frame_def s')
  show "table_inv h (page_table s')" unfolding s' by (rule bpm_invD(1)[OF inv])
  show "replacer_inv (replacer s')" unfolding s' by (rule ri(1))
  show "length (pages s') = pool_size s'" unfolding s' using bpm_invD(3)[OF inv] by simp
  show "replacer_size (replacer s') = pool_size s'" unfolding s' ri(2) by (rule bpm_invD(4)[OF inv])
  show "distinct (free_list s')" unfolding s' by (rule bpm_invD(7)[OF inv])
  show "0 \<le> f \<and> nat f < pool_size s' \<and> page_id (frame s' f) = q \<and> f \<in> dom (entries (replacer s'))"
    if "Find_nat h (page_table s') q = Some f" for q f
  proof -
    from bpm_invD(5)[OF inv that[unfolded s']]
    have a: "0 \<le> f" "nat f < pool_size s" "page_id (frame s f) = q" "f \<in> dom (entries (replacer s))"
      by auto
    show ?thesis using a ri(3)[of f] ri(4) pidp by (cases "f = g") (auto simp: s' fr)
  qed
  show "0 \<le> f \<and> nat f < pool_size s' \<and> pin_count (frame s' f) = 0"
    if "entries (replacer s') f = Some e" "is_evictable e" for f e
  proof -
    have ne: "f \<noteq> g" using that ri(4,5) by (auto simp: s')
    then have "entries (replacer s) f = Some e" using that(1) ri(3) by (simp add: s')
    from bpm_invD(6)[OF inv this that(2)] ne show ?thesis by (simp add: s' fr)
  qed
  show "0 \<le> f \<and> nat f < pool_size s' \<and> (\<forall>pid. Find_nat h (page_table s') pid \<noteq> Some f)"
    if "f \<in> set (free_list s')" for f
    using bpm_invD(8)[OF inv that[unfolded s']] by (simp add: s')
  show "global_depth (page_table s') < 31" unfolding s' by (rule bpm_invD(9)[OF inv])
qed

lemma FetchPgImp_hit_inv:
  assumes inv: "bpm_inv h s" and hit: "Find_nat h (page_table s) pid = Some f"
    and r: "FetchPgImp h ev0 s pid = Some (Inr (s', b))"
  shows "bpm_inv h s'"
proof -
  from bpm_invD(5)[OF inv hit] have f: "0 \<le> f" "nat f < pool_size s" by auto
  have le: "f \<le> int (replacer_size (replacer s))" using f bpm_invD(4)[OF inv] by linarith
  have rp: "record_and_pin ev0 s f = Inr s'"
    using r hit by (auto simp: FetchPgImp_def Find_bpm[OF inv] split: sum.splits)
  from record_and_pin_effect[OF bpm_invD(2)[OF inv] le rp] obtain r2 e' where
    s': "s' = set_frame (s\<lparr>replacer := r2\<rparr>) f ((frame s f)\<lparr>pin_count := pin_count (frame s f) + 1\<rparr>)"
    and r2: "replacer_inv r2" "replacer_size r2 = replacer_size (replacer s)"
      "\<And>g. g \<noteq> f \<Longrightarrow> entries r2 g = entries (replacer s) g"
      "entries r2 f = Some e'" "\<not> is_evictable e'"
    by auto
  show ?thesis
    by (rule bpm_inv_pinned_frame[OF inv f r2, where p = "(frame s f)\<lparr>pin_count := pin_count (frame s f) + 1\<rparr>"])
       (simp_all add: s' set_frame_def)
qed

lemma UnpinPgImp_inv:
  assumes inv: "bpm_inv h s" and r: "UnpinPgImp h s pid dirty = Some (Inr (s', b))"
  shows "bpm_inv h s'"
proof (cases "Find_nat h (page_table s) pid")
  case None
  then show ?thesis using r inv by (simp add: UnpinPgImp_def Find_bpm[OF inv])
next
  case (Some f)
  from bpm_invD(5)[OF inv Some] obtain e where
    f: "0 \<le> f" "nat f < pool_size s" and e: "entries (replacer s) f = Some e" by auto
  have le: "f \<le> int (replacer_size (replacer s))" using f bpm_invD(4)[OF inv] by linarith
  show ?thesis
  proof (cases "pin_count (frame s f) > 0")
    case False
    then show ?thesis using r inv Some by (simp add: UnpinPgImp_def Find_bpm[OF inv] Let_def)
  next
    case True
    define page2 where "page2 =
     (if dirty then (frame s f)\<lparr>pin_count := pin_count (frame s f) - 1, is_dirty := True\<rparr>
      else (frame s f)\<lparr>pin_count := pin_count (frame s f) - 1\<rparr>)"
    have p2: "page_id page2 = page_id (frame s f)" "pin_count page2 = pin_count (frame s f) - 1"
      by (simp_all add: page2_def)
    define s1 where "s1 = set_frame s f page2"
    have fr: "frame s1 g = (if g = f then page2 else frame s g)" if "0 \<le> g" for g
      using that f bpm_invD(3)[OF inv] by (simp add: s1_def frame_set_frame)
    from SetEvictable_ok[OF bpm_invD(2)[OF inv] le, of True] e obtain r1 where
      r1: "SetEvictable (replacer s) f True = Inr r1" "replacer_inv r1"
        "replacer_size r1 = replacer_size (replacer s)"
        "entries r1 = (entries (replacer s))(f \<mapsto> e\<lparr>is_evictable := True\<rparr>)"
      by auto
    have cases: "s' = (if pin_count page2 = 0 then s1\<lparr>replacer := r1\<rparr> else s1)"
      using r Some True r1(1)
      by (auto simp: UnpinPgImp_def Find_bpm[OF inv] Let_def page2_def s1_def split: if_splits)
    show ?thesis
    proof (rule bpm_invI)
      have same: "page_table s' = page_table s" "pool_size s' = pool_size s"
        "free_list s' = free_list s" "length (pages s') = length (pages s)"
        by (simp_all add: cases s1_def)
      have rep: "replacer s' = (if pin_count page2 = 0 then r1 else replacer s)"
        by (simp add: cases s1_def)
      have fr': "frame s' g = (if g = f then page2 else frame s g)" if "0 \<le> g" for g
        unfolding cases using fr[OF that] by auto
      show "table_inv h (page_table s')" unfolding same by (rule bpm_invD(1)[OF inv])
      show "replacer_inv (replacer s')" unfolding rep using r1(2) bpm_invD(2)[OF inv] by simp
      show "length (pages s') = pool_size s'" unfolding same by (rule bpm_invD(3)[OF inv])
      show "replacer_size (replacer s') = pool_size s'"
        unfolding rep same using r1(3) bpm_invD(4)[OF inv] by simp
      show "distinct (free_list s')" unfolding same by (rule bpm_invD(7)[OF inv])
      show "0 \<le> g \<and> nat g < pool_size s' \<and> page_id (frame s' g) = q \<and> g \<in> dom (entries (replacer s'))"
        if "Find_nat h (page_table s') q = Some g" for q g
        using bpm_invD(5)[OF inv that[unfolded same]] p2(1) by (auto simp: same fr' rep r1(4))
      show "0 \<le> g \<and> nat g < pool_size s' \<and> pin_count (frame s' g) = 0"
        if "entries (replacer s') g = Some ee" "is_evictable ee" for g ee
      proof (cases "g = f")
        case True
        show ?thesis
        proof (cases "pin_count page2 = 0")
          case True
          then show ?thesis using \<open>g = f\<close> f by (simp add: same fr')
        next
          case False
          then have "entries (replacer s) f = Some ee" using that(1) \<open>g = f\<close> by (simp add: rep)
          from bpm_invD(6)[OF inv this that(2)] \<open>0 < pin_count (frame s f)\<close> show ?thesis by simp
        qed
      next
        case False
        then have "entries (replacer s) g = Some ee" using that(1) by (auto simp: rep r1(4) split: if_splits)
        from bpm_invD(6)[OF inv this that(2)] False show ?thesis by (simp add: same fr')
      qed
      show "0 \<le> g \<and> nat g < pool_size s' \<and> (\<forall>pid. Find_nat h (page_table s') pid \<noteq> Some g)"
        if "g \<in> set (free_list s')" for g
        using bpm_invD(8)[OF inv that[unfolded same]] by (simp add: same)
      show "global_depth (page_table s') < 31" unfolding same by (rule bpm_invD(9)[OF inv])
    qed
  qed
qed

lemma Evict_result:
  assumes inv: "replacer_inv r" and ev: "Evict ev0 r = (r1, res)"
  shows "replacer_inv r1 \<and> replacer_size r1 = replacer_size r \<and>
         (case res of None \<Rightarrow> r1 = r
          | Some g \<Rightarrow> \<exists>eg. entries r g = Some eg \<and> is_evictable eg \<and>
                          entries r1 = (entries r)(g := None))"
proof (cases "\<exists>f e. entries r f = Some e \<and> is_evictable e")
  case True
  then obtain f e where "entries r f = Some e" "is_evictable e" by blast
  from Evict_some[OF inv this, of ev0] ev show ?thesis by auto
next
  case False
  then have "Evict ev0 r = (r, None)" by (intro Evict_none[OF inv]) blast
  then show ?thesis using ev inv by simp
qed

lemma Remove_nat_bucket_size: "bucket_size (fst (Remove_nat h t k)) = bucket_size t"
  by (simp add: Remove_unfold set_target_def)

text \<open>
  \<open>find_replacement\<close> does not overflow. The frame that it returns is a frame of the pool
  that is neither free nor the frame of a resident page, and the state it leaves has
  the invariant.
\<close>

lemma find_replacement_returns:
  assumes inv: "bpm_inv h s"
  shows "\<exists>s1 res. find_replacement h ev0 s = Inr (s1, res)"
  by (auto simp: find_replacement_def Remove_bpm[OF inv] Let_def split: list.splits prod.splits option.splits)

lemma find_replacement_inv:
  assumes inv: "bpm_inv h s" and fr: "find_replacement h ev0 s = Inr (s1, res)"
  shows "bpm_inv h s1" and "pool_size s1 = pool_size s"
    and "res = Some g \<Longrightarrow> 0 \<le> g \<and> nat g < pool_size s \<and> g \<notin> set (free_list s1) \<and>
           (\<forall>pid. Find_nat h (page_table s1) pid \<noteq> Some g)"
proof -
  have "bpm_inv h s1 \<and> pool_size s1 = pool_size s \<and>
        (res = Some g \<longrightarrow> 0 \<le> g \<and> nat g < pool_size s \<and> g \<notin> set (free_list s1) \<and>
           (\<forall>pid. Find_nat h (page_table s1) pid \<noteq> Some g))"
  proof (cases "free_list s")
    case (Cons f fs)
    then have s1: "s1 = s\<lparr>free_list := fs\<rparr>" and res: "res = Some f"
      using fr by (simp_all add: find_replacement_def)
    have fin: "f \<in> set (free_list s)" using Cons by simp
    have "bpm_inv h s1"
    proof (rule bpm_invI)
      show "table_inv h (page_table s1)" unfolding s1 using bpm_invD(1)[OF inv] by simp
      show "replacer_inv (replacer s1)" unfolding s1 using bpm_invD(2)[OF inv] by simp
      show "length (pages s1) = pool_size s1" unfolding s1 using bpm_invD(3)[OF inv] by simp
      show "replacer_size (replacer s1) = pool_size s1" unfolding s1 using bpm_invD(4)[OF inv] by simp
      show "distinct (free_list s1)" unfolding s1 using bpm_invD(7)[OF inv] Cons by simp
      show "0 \<le> f \<and> nat f < pool_size s1 \<and> page_id (frame s1 f) = q \<and> f \<in> dom (entries (replacer s1))"
        if "Find_nat h (page_table s1) q = Some f" for q f
        using bpm_invD(5)[OF inv, of q f] that by (simp add: s1)
      show "0 \<le> f \<and> nat f < pool_size s1 \<and> pin_count (frame s1 f) = 0"
        if "entries (replacer s1) f = Some e" "is_evictable e" for f e
        using bpm_invD(6)[OF inv, of f e] that by (simp add: s1)
      show "0 \<le> f \<and> nat f < pool_size s1 \<and> (\<forall>pid. Find_nat h (page_table s1) pid \<noteq> Some f)"
        if "f \<in> set (free_list s1)" for f
        using bpm_invD(8)[OF inv, of f] that Cons by (simp add: s1)
      show "global_depth (page_table s1) < 31" unfolding s1 using bpm_invD(9)[OF inv] by simp
    qed
    moreover have "f \<notin> set fs" using bpm_invD(7)[OF inv] Cons by simp
    ultimately show ?thesis using bpm_invD(8)[OF inv fin] res by (auto simp: s1)
  next
    case Nil
    obtain r1 ev where ev: "Evict ev0 (replacer s) = (r1, ev)" by (cases "Evict ev0 (replacer s)")
    note er = Evict_result[OF bpm_invD(2)[OF inv] ev]
    show ?thesis
    proof (cases ev)
      case None
      then have "r1 = replacer s" using er by simp
      then have "s1 = s" "res = None" using fr Nil ev None by (simp_all add: find_replacement_def)
      then show ?thesis using inv by simp
    next
      case (Some v)
      then obtain eg where eg: "entries (replacer s) v = Some eg" "is_evictable eg"
        and e1: "entries r1 = (entries (replacer s))(v := None)"
        and ri1: "replacer_inv r1" "replacer_size r1 = replacer_size (replacer s)"
        using er by auto
      from bpm_invD(6)[OF inv eg] have v: "0 \<le> v" "nat v < pool_size s" by auto
      define old where "old = page_id (frame s v)"
      define pt where "pt = fst (Remove_nat h (page_table s) old)"
      have rm: "Remove h (page_table s) old = Inr (pt, snd (Remove_nat h (page_table s) old))"
        by (simp add: Remove_bpm[OF inv] pt_def)
      have res: "res = Some v"
        using fr Nil ev Some rm by (auto simp: find_replacement_def Let_def old_def split: if_splits)
      have fields: "page_table s1 = pt" "replacer s1 = r1" "free_list s1 = []"
        "pool_size s1 = pool_size s" "length (pages s1) = length (pages s)"
        using fr Nil ev Some rm by (auto simp: find_replacement_def Let_def old_def split: if_splits)
      have frm: "f \<noteq> v \<Longrightarrow> 0 \<le> f \<Longrightarrow> frame s1 f = frame s f" for f
        using fr Nil ev Some v rm bpm_invD(3)[OF inv]
        by (auto simp: find_replacement_def Let_def old_def frame_set_frame split: if_splits)
      note ti = bpm_invD(1)[OF inv]
      have fnd: "Find_nat h pt q = (if q = old then None else Find_nat h (page_table s) q)" for q
        unfolding pt_def by (rule Remove_correct(2)[OF ti])
      have nov: "Find_nat h pt q \<noteq> Some v" for q
      proof
        assume a: "Find_nat h pt q = Some v"
        then have "q \<noteq> old" "Find_nat h (page_table s) q = Some v" by (auto simp: fnd split: if_splits)
        from bpm_invD(5)[OF inv this(2)] this(1) show False by (simp add: old_def)
      qed
      have "bpm_inv h s1"
      proof (rule bpm_invI)
        show "table_inv h (page_table s1)" unfolding fields pt_def by (rule Remove_correct(1)[OF ti])
        show "replacer_inv (replacer s1)" unfolding fields by (rule ri1(1))
        show "length (pages s1) = pool_size s1" unfolding fields by (rule bpm_invD(3)[OF inv])
        show "replacer_size (replacer s1) = pool_size s1"
          unfolding fields ri1(2) by (rule bpm_invD(4)[OF inv])
        show "distinct (free_list s1)" unfolding fields by simp
        show "0 \<le> f \<and> nat f < pool_size s1 \<and> page_id (frame s1 f) = q \<and> f \<in> dom (entries (replacer s1))"
          if "Find_nat h (page_table s1) q = Some f" for q f
        proof -
          have a: "Find_nat h pt q = Some f" using that by (simp add: fields)
          then have b: "Find_nat h (page_table s) q = Some f" by (auto simp: fnd split: if_splits)
          have "f \<noteq> v" using a nov by auto
          then show ?thesis using bpm_invD(5)[OF inv b] by (auto simp: fields frm e1)
        qed
        show "0 \<le> f \<and> nat f < pool_size s1 \<and> pin_count (frame s1 f) = 0"
          if "entries (replacer s1) f = Some e" "is_evictable e" for f e
        proof -
          have ne: "f \<noteq> v" using that(1) by (auto simp: fields e1)
          then have "entries (replacer s) f = Some e" using that(1) by (simp add: fields e1)
          from bpm_invD(6)[OF inv this that(2)] ne show ?thesis by (simp add: fields frm)
        qed
        show "0 \<le> f \<and> nat f < pool_size s1 \<and> (\<forall>pid. Find_nat h (page_table s1) pid \<noteq> Some f)"
          if "f \<in> set (free_list s1)" for f
          using that by (simp add: fields)
        show "global_depth (page_table s1) < 31"
          unfolding fields pt_def Remove_nat_depth by (rule bpm_invD(9)[OF inv])
      qed
      then show ?thesis using res v nov by (auto simp: fields)
    qed
  qed
  then show "bpm_inv h s1" and "pool_size s1 = pool_size s"
    and "res = Some g \<Longrightarrow> 0 \<le> g \<and> nat g < pool_size s \<and> g \<notin> set (free_list s1) \<and>
           (\<forall>pid. Find_nat h (page_table s1) pid \<noteq> Some g)"
    by simp_all
qed

text \<open>Installing a page in a frame that is neither free nor resident.\<close>

lemma bpm_inv_install:
  assumes inv: "bpm_inv h s1" and g: "0 \<le> g" "nat g < pool_size s1"
    and nf: "g \<notin> set (free_list s1)" and det: "\<And>q. Find_nat h (page_table s1) q \<noteq> Some g"
    and tab: "table_inv h pt"
      "\<And>q. Find_nat h pt q = (if q = pid then Some g else Find_nat h (page_table s1) q)"
      "global_depth pt < 31"
    and rep: "replacer_inv r2" "replacer_size r2 = replacer_size (replacer s1)"
      "\<And>f. f \<noteq> g \<Longrightarrow> entries r2 f = entries (replacer s1) f"
      "entries r2 g = Some e'" "\<not> is_evictable e'"
    and pg: "page_id p = pid"
    and s': "pages s' = (pages s1)[nat g := p]" "page_table s' = pt" "replacer s' = r2"
      "free_list s' = free_list s1" "pool_size s' = pool_size s1"
  shows "bpm_inv h s'"
proof (rule bpm_invI)
  have fr: "frame s' f = (if f = g then p else frame s1 f)" if "0 \<le> f" for f
    using that g bpm_invD(3)[OF inv] by (auto simp: frame_def s')
  show "table_inv h (page_table s')" unfolding s' by (rule tab(1))
  show "replacer_inv (replacer s')" unfolding s' by (rule rep(1))
  show "length (pages s') = pool_size s'" unfolding s' using bpm_invD(3)[OF inv] by simp
  show "replacer_size (replacer s') = pool_size s'" unfolding s' rep(2) by (rule bpm_invD(4)[OF inv])
  show "distinct (free_list s')" unfolding s' by (rule bpm_invD(7)[OF inv])
  show "0 \<le> f \<and> nat f < pool_size s' \<and> page_id (frame s' f) = q \<and> f \<in> dom (entries (replacer s'))"
    if "Find_nat h (page_table s') q = Some f" for q f
  proof (cases "q = pid")
    case True
    then have "f = g" using that by (simp add: s' tab(2))
    then show ?thesis using g pg rep(4) True by (auto simp: s' fr)
  next
    case False
    then have a: "Find_nat h (page_table s1) q = Some f" using that by (simp add: s' tab(2))
    then have "f \<noteq> g" using det by auto
    then show ?thesis using bpm_invD(5)[OF inv a] rep(3) by (auto simp: s' fr)
  qed
  show "0 \<le> f \<and> nat f < pool_size s' \<and> pin_count (frame s' f) = 0"
    if "entries (replacer s') f = Some e" "is_evictable e" for f e
  proof -
    have ne: "f \<noteq> g" using that rep(4,5) by (auto simp: s')
    then have "entries (replacer s1) f = Some e" using that(1) rep(3) by (simp add: s')
    from bpm_invD(6)[OF inv this that(2)] ne show ?thesis by (simp add: s' fr)
  qed
  show "0 \<le> f \<and> nat f < pool_size s' \<and> (\<forall>pid. Find_nat h (page_table s') pid \<noteq> Some f)"
    if "f \<in> set (free_list s')" for f
  proof -
    have fin: "f \<in> set (free_list s1)" using that by (simp add: s')
    then have "f \<noteq> g" using nf by auto
    then show ?thesis using bpm_invD(8)[OF inv fin] by (auto simp: s' tab(2))
  qed
  show "global_depth (page_table s') < 31" unfolding s' by (rule tab(3))
qed

text \<open>The common end of \<open>NewPgImp\<close> and of \<open>FetchPgImp\<close> on a miss.\<close>

lemma install_and_pin_inv:
  assumes inv: "bpm_inv h s1" and g: "0 \<le> g" "nat g < pool_size s1"
    and nf: "g \<notin> set (free_list s1)" and det: "\<And>q. Find_nat h (page_table s1) q \<noteq> Some g"
    and s2: "pages s2 = (pages s1)[nat g := p]" "page_table s2 = page_table s1"
      "replacer s2 = replacer s1" "free_list s2 = free_list s1" "pool_size s2 = pool_size s1"
    and pg: "page_id p = pid"
    and ins: "Insert h (page_table s2) pid g = Some (Inr pt)"
    and rp: "record_and_pin ev0 (s2\<lparr>page_table := pt\<rparr>) g = Inr s3"
  shows "bpm_inv h s3"
proof -
  have le: "g \<le> int (replacer_size (replacer (s2\<lparr>page_table := pt\<rparr>)))"
    using g bpm_invD(4)[OF inv] by (simp add: s2)
  have ri: "replacer_inv (replacer (s2\<lparr>page_table := pt\<rparr>))"
    using bpm_invD(2)[OF inv] by (simp add: s2)
  from record_and_pin_effect[OF ri le rp] obtain r2 e' where
    s3: "s3 = set_frame (s2\<lparr>page_table := pt, replacer := r2\<rparr>) g
           ((frame s2 g)\<lparr>pin_count := pin_count (frame s2 g) + 1\<rparr>)"
    and r2: "replacer_inv r2" "replacer_size r2 = replacer_size (replacer s1)"
      "\<And>f. f \<noteq> g \<Longrightarrow> entries r2 f = entries (replacer s1) f"
      "entries r2 g = Some e'" "\<not> is_evictable e'"
    by (auto simp: s2)
  have fg: "frame s2 g = p" using g bpm_invD(3)[OF inv] by (simp add: frame_def s2)
  note ia = Insert_agrees[OF ins[unfolded s2] bpm_invD(1)[OF inv] bpm_invD(9)[OF inv]]
  note ic = Insert_correct[OF ia(1) bpm_invD(1)[OF inv]]
  show ?thesis
    by (rule bpm_inv_install[OF inv g nf det ic(1) ic(2) ia(2) r2,
          where p = "p\<lparr>pin_count := pin_count p + 1\<rparr>"])
       (simp_all add: s3 fg pg s2 set_frame_def)
qed

lemma NewPgImp_inv:
  assumes inv: "bpm_inv h s" and r: "NewPgImp h ev0 s = Some (Inr (s', b))"
  shows "bpm_inv h s'"
proof -
  from find_replacement_returns[OF inv, of ev0]
  obtain s1 res where fr: "find_replacement h ev0 s = Inr (s1, res)" by auto
  note fi = find_replacement_inv[OF inv fr]
  show ?thesis
  proof (cases res)
    case None
    then have "s' = s1" using r fr by (simp add: NewPgImp_def)
    then show ?thesis using fi(1) by simp
  next
    case (Some g)
    from fi(3)[OF Some] have g: "0 \<le> g" "nat g < pool_size s1" "g \<notin> set (free_list s1)"
      "\<And>q. Find_nat h (page_table s1) q \<noteq> Some g" by (auto simp: fi(2))
    define s2 where "s2 = set_frame (s1\<lparr>next_page_id := next_page_id s1 + 1\<rparr>) g
        ((frame s1 g)\<lparr>page_id := next_page_id s1\<rparr>)"
    from r fr Some obtain pt where ins: "Insert h (page_table s2) (next_page_id s1) g = Some (Inr pt)"
      and rp: "record_and_pin ev0 (s2\<lparr>page_table := pt\<rparr>) g = Inr s'"
      by (auto simp: NewPgImp_def Let_def s2_def split: option.splits sum.splits)
    show ?thesis
      by (rule install_and_pin_inv[OF fi(1) g(1,2,3) g(4) _ _ _ _ _ _ ins rp,
            where p = "(frame s1 g)\<lparr>page_id := next_page_id s1\<rparr>"])
         (simp_all add: s2_def set_frame_def)
  qed
qed

lemma FetchPgImp_inv:
  assumes inv: "bpm_inv h s" and r: "FetchPgImp h ev0 s pid = Some (Inr (s', b))"
  shows "bpm_inv h s'"
proof (cases "Find_nat h (page_table s) pid")
  case (Some f)
  show ?thesis by (rule FetchPgImp_hit_inv[OF inv Some r])
next
  case None
  from find_replacement_returns[OF inv, of ev0]
  obtain s1 res where fr: "find_replacement h ev0 s = Inr (s1, res)" by auto
  note fi = find_replacement_inv[OF inv fr]
  show ?thesis
  proof (cases res)
    case N: None
    then have "s' = s1" using r fr None by (simp add: FetchPgImp_def Find_bpm[OF inv])
    then show ?thesis using fi(1) by simp
  next
    case (Some g)
    from fi(3)[OF Some] have g: "0 \<le> g" "nat g < pool_size s1" "g \<notin> set (free_list s1)"
      "\<And>q. Find_nat h (page_table s1) q \<noteq> Some g" by (auto simp: fi(2))
    define s2 where "s2 = set_frame s1 g ((frame s1 g)\<lparr>data := disk s1 pid, page_id := pid\<rparr>)"
    from r fr Some None obtain pt where ins: "Insert h (page_table s2) pid g = Some (Inr pt)"
      and rp: "record_and_pin ev0 (s2\<lparr>page_table := pt\<rparr>) g = Inr s'"
      by (auto simp: FetchPgImp_def Find_bpm[OF inv] Let_def s2_def split: option.splits sum.splits)
    show ?thesis
      by (rule install_and_pin_inv[OF fi(1) g(1,2,3) g(4) _ _ _ _ _ _ ins rp,
            where p = "(frame s1 g)\<lparr>data := disk s1 pid, page_id := pid\<rparr>"])
         (simp_all add: s2_def set_frame_def)
  qed
qed

lemma DeletePgImp_inv:
  assumes inv: "bpm_inv h s" and r: "DeletePgImp h s pid = Some (Inr (s', b))"
  shows "bpm_inv h s'"
proof (cases "Find_nat h (page_table s) pid")
  case None
  then show ?thesis using r inv by (simp add: DeletePgImp_def Find_bpm[OF inv])
next
  case (Some f)
  from bpm_invD(5)[OF inv Some] have f: "0 \<le> f" "nat f < pool_size s" "page_id (frame s f) = pid"
    by auto
  have le: "f \<le> int (replacer_size (replacer s))" using f bpm_invD(4)[OF inv] by linarith
  show ?thesis
  proof (cases "pin_count (frame s f) > 0")
    case True
    then show ?thesis using r inv Some by (simp add: DeletePgImp_def Find_bpm[OF inv])
  next
    case False
    define pt where "pt = fst (Remove_nat h (page_table s) pid)"
    have rm: "Remove h (page_table s) pid = Inr (pt, snd (Remove_nat h (page_table s) pid))"
      by (simp add: Remove_bpm[OF inv] pt_def)
    from r Some False obtain r1 where rf: "Remove_frame (replacer s) f = Inr r1"
      and s': "s' = set_frame (s\<lparr>free_list := free_list s @ [f], replacer := r1, page_table := pt\<rparr>) f
            (ResetPage (frame s f))"
      by (auto simp: DeletePgImp_def Find_bpm[OF inv] rm Let_def split: sum.splits)
    from Remove_frame_inv[OF bpm_invD(2)[OF inv] rf] have
      r1: "replacer_inv r1"
        "replacer_size r1 = replacer_size (replacer s)"
        "\<And>g. g \<noteq> f \<Longrightarrow> entries r1 g = entries (replacer s) g"
        "entries r1 f = None \<or> entries r1 f = entries (replacer s) f"
      by auto
    have fields: "page_table s' = pt" "replacer s' = r1" "free_list s' = free_list s @ [f]"
      "pool_size s' = pool_size s" "length (pages s') = length (pages s)"
      by (simp_all add: s')
    have frm: "frame s' g = (if g = f then ResetPage (frame s f) else frame s g)" if "0 \<le> g" for g
      using that f bpm_invD(3)[OF inv] by (simp add: s' frame_set_frame)
    note ti = bpm_invD(1)[OF inv]
    have fnd: "Find_nat h pt q = (if q = pid then None else Find_nat h (page_table s) q)" for q
      unfolding pt_def by (rule Remove_correct(2)[OF ti])
    have nov: "Find_nat h pt q \<noteq> Some f" for q
    proof
      assume a: "Find_nat h pt q = Some f"
      then have "q \<noteq> pid" "Find_nat h (page_table s) q = Some f" by (auto simp: fnd split: if_splits)
      from bpm_invD(5)[OF inv this(2)] this(1) f(3) show False by simp
    qed
    have fnf: "f \<notin> set (free_list s)" using bpm_invD(8)[OF inv, of f] Some by auto
    show ?thesis
    proof (rule bpm_invI)
      show "table_inv h (page_table s')" unfolding fields pt_def by (rule Remove_correct(1)[OF ti])
      show "replacer_inv (replacer s')" unfolding fields by (rule r1(1))
      show "length (pages s') = pool_size s'" unfolding fields by (rule bpm_invD(3)[OF inv])
      show "replacer_size (replacer s') = pool_size s'"
        unfolding fields r1(2) by (rule bpm_invD(4)[OF inv])
      show "distinct (free_list s')" unfolding fields using bpm_invD(7)[OF inv] fnf by simp
      show "0 \<le> g \<and> nat g < pool_size s' \<and> page_id (frame s' g) = q \<and> g \<in> dom (entries (replacer s'))"
        if "Find_nat h (page_table s') q = Some g" for q g
      proof -
        have a: "Find_nat h pt q = Some g" using that by (simp add: fields)
        then have b: "Find_nat h (page_table s) q = Some g" by (auto simp: fnd split: if_splits)
        have "g \<noteq> f" using a nov by auto
        then show ?thesis using bpm_invD(5)[OF inv b] r1(3) by (auto simp: fields frm)
      qed
      show "0 \<le> g \<and> nat g < pool_size s' \<and> pin_count (frame s' g) = 0"
        if "entries (replacer s') g = Some e" "is_evictable e" for g e
      proof -
        have "entries (replacer s) g = Some e" using that(1) r1(3,4) by (cases "g = f") (auto simp: fields)
        from bpm_invD(6)[OF inv this that(2)] show ?thesis
          by (auto simp: fields frm ResetPage_def ResetMemory_def)
      qed
      show "0 \<le> g \<and> nat g < pool_size s' \<and> (\<forall>pid. Find_nat h (page_table s') pid \<noteq> Some g)"
        if "g \<in> set (free_list s')" for g
      proof (cases "g = f")
        case True
        then show ?thesis using f nov by (simp add: fields)
      next
        case False
        then have "g \<in> set (free_list s)" using that by (simp add: fields)
        from bpm_invD(8)[OF inv this] show ?thesis by (auto simp: fields fnd)
      qed
      show "global_depth (page_table s') < 31"
        unfolding fields pt_def Remove_nat_depth by (rule bpm_invD(9)[OF inv])
    qed
  qed
qed

lemma bpm_step_inv:
  assumes inv: "bpm_inv h s" and r: "bpm_step h ev0 s op = Some (Inr s')"
  shows "bpm_inv h s'"
proof (cases op)
  case OpNew
  then obtain b where "NewPgImp h ev0 s = Some (Inr (s', b))"
    using r by (cases "NewPgImp h ev0 s") (auto simp: drop_result_def map_sum_def split: sum.splits)
  then show ?thesis by (rule NewPgImp_inv[OF inv])
next
  case (OpFetch pid)
  then obtain b where "FetchPgImp h ev0 s pid = Some (Inr (s', b))"
    using r by (cases "FetchPgImp h ev0 s pid") (auto simp: drop_result_def map_sum_def split: sum.splits)
  then show ?thesis by (rule FetchPgImp_inv[OF inv])
next
  case (OpUnpin pid d)
  then obtain b where "UnpinPgImp h s pid d = Some (Inr (s', b))"
    using r by (cases "UnpinPgImp h s pid d") (auto simp: drop_result_def map_sum_def split: sum.splits)
  then show ?thesis by (rule UnpinPgImp_inv[OF inv])
next
  case (OpFlush pid)
  then obtain b where "FlushPgImp h s pid = Some (Inr (s', b))"
    using r by (cases "FlushPgImp h s pid") (auto simp: drop_result_def map_sum_def split: sum.splits)
  then show ?thesis by (rule FlushPgImp_inv[OF inv])
next
  case OpFlushAll
  then show ?thesis using r FlushAllPgsImp_inv[OF inv] by simp
next
  case (OpDelete pid)
  then obtain b where "DeletePgImp h s pid = Some (Inr (s', b))"
    using r by (cases "DeletePgImp h s pid") (auto simp: drop_result_def map_sum_def split: sum.splits)
  then show ?thesis by (rule DeletePgImp_inv[OF inv])
qed

lemma bpm_run_inv:
  "bpm_inv h s \<Longrightarrow> bpm_run h ev0 s ops = Some (Inr s') \<Longrightarrow> bpm_inv h s'"
proof (induction ops arbitrary: s)
  case Nil
  then show ?case by simp
next
  case (Cons op ops)
  from Cons.prems(2) obtain s1 where st: "bpm_step h ev0 s op = Some (Inr s1)"
    and run: "bpm_run h ev0 s1 ops = Some (Inr s')"
    by (auto split: option.splits sum.splits)
  show ?case by (rule Cons.IH[OF bpm_step_inv[OF Cons.prems(1) st] run])
qed

subsection \<open>Exhausted pool\<close>

text \<open>No frame can be evicted when every frame is pinned.\<close>

lemma all_pinned_no_victim:
  assumes inv: "bpm_inv h s" and pinned: "\<forall>i < pool_size s. 0 < pin_count (pages s ! i)"
  shows "Evict ev0 (replacer s) = (replacer s, None)"
proof (rule Evict_none[OF bpm_invD(2)[OF inv]])
  fix f e assume e: "entries (replacer s) f = Some e"
  show "\<not> is_evictable e"
  proof
    assume "is_evictable e"
    from bpm_invD(6)[OF inv e this] have "nat f < pool_size s" "pin_count (pages s ! nat f) = 0"
      by (simp_all add: frame_def)
    then show False using pinned by fastforce
  qed
qed

lemma find_replacement_exhausted:
  assumes inv: "bpm_inv h s" and fl: "free_list s = []"
    and pinned: "\<forall>i < pool_size s. 0 < pin_count (pages s ! i)"
  shows "find_replacement h ev0 s = Inr (s, None)"
  by (simp add: find_replacement_def fl all_pinned_no_victim[OF inv pinned])

text \<open>A key that a bucket of the directory holds is found.\<close>

lemma bucket_key_found:
  assumes inv: "table_inv h t" and i: "i < length (dir t)"
    and k: "k \<in> fst ` set (b_list (bucket_at t i))"
  shows "Find_nat h t k \<noteq> None"
proof -
  define D where "D = b_depth (bucket_at t i)"
  have Dle: "D \<le> global_depth t" unfolding D_def by (rule table_invD(3)[OF inv i])
  have j: "IndexOf_nat h t k < length (dir t)" by (rule IndexOf_less[OF inv])
  have a: "h k mod 2 ^ D = i mod 2 ^ D" unfolding D_def by (rule table_invD(5)[OF inv i k])
  have "IndexOf_nat h t k mod 2 ^ D = h k mod 2 ^ D"
    by (simp add: IndexOf_mod mod_mod_pow[OF Dle])
  then have "dir t ! i = dir t ! IndexOf_nat h t k"
    using table_invD(4)[OF inv i j] a by (simp add: D_def)
  then have "bucket_at t (IndexOf_nat h t k) = bucket_at t i" by (simp add: bucket_at_def)
  then show ?thesis using k by (simp add: Find_key map_of_eq_None_iff)
qed

text \<open>A table that holds a key has buckets of positive capacity.\<close>

lemma stored_bucket_size:
  assumes inv: "table_inv h t" and f: "Find_nat h t key = Some v"
  shows "0 < bucket_size t"
proof -
  define tg where "tg = bucket_at t (IndexOf_nat h t key)"
  have ok: "bucket_ok (bucket_size t) tg"
    unfolding tg_def by (rule table_invD(6)[OF inv IndexOf_less[OF inv]])
  have "map_of (b_list tg) key = Some v" using f by (simp add: Find_key tg_def)
  then have "b_list tg \<noteq> []" by auto
  then show ?thesis using ok by (cases "b_list tg") (auto simp: bucket_ok_def)
qed

text \<open>
  \<open>Insert\<close> returns when no key of the table agrees with the new key on the low 30 bits
  of the hash value.
\<close>

lemma Insert_separated:
  assumes inv: "table_inv h t" and gd: "global_depth t < 31" and bs: "0 < bucket_size t"
    and sep: "\<And>k. Find_nat h t k \<noteq> None \<Longrightarrow> k \<noteq> key \<Longrightarrow> h k mod 2 ^ 30 \<noteq> h key mod 2 ^ 30"
  shows "\<exists>t'. Insert h t key val = Some (Inr t')"
proof (rule Insert_cases(1)[OF inv gd])
  define tg where "tg = bucket_at t (IndexOf_nat h t key)"
  have i: "IndexOf_nat h t key < length (dir t)" by (rule IndexOf_less[OF inv])
  have ok: "bucket_ok (bucket_size t) tg"
    unfolding tg_def by (rule table_invD(6)[OF inv i])
  have "Find_nat h t key \<noteq> None \<or> \<not> IsFull tg \<or>
        (\<exists>k \<in> target_keys h t key. h k mod 2 ^ 30 \<noteq> h key mod 2 ^ 30)"
  proof (cases "Find_nat h t key = None \<and> IsFull tg")
    case False
    then show ?thesis by auto
  next
    case True
    then have "length (b_list tg) = bucket_size t" using ok by (simp add: IsFull_def bucket_ok_def)
    then have "b_list tg \<noteq> []" using bs by auto
    then obtain k v where kv: "(k, v) \<in> set (b_list tg)" by (cases "b_list tg") auto
    then have kt: "k \<in> fst ` set (b_list (bucket_at t (IndexOf_nat h t key)))"
      unfolding tg_def by force
    have "map_of (b_list tg) key = None" using True by (simp add: Find_key tg_def)
    then have "key \<notin> fst ` set (b_list tg)" by (simp add: map_of_eq_None_iff)
    then have "k \<noteq> key" using kv by force
    from sep[OF bucket_key_found[OF inv i kt] this]
    have "h k mod 2 ^ 30 \<noteq> h key mod 2 ^ 30" .
    moreover have "k \<in> target_keys h t key" using kt by (simp add: target_keys_def)
    ultimately show ?thesis by blast
  qed
  then show "Find_nat h t key \<noteq> None \<or> \<not> IsFull (bucket_at t (IndexOf_nat h t key)) \<or>
        (\<exists>k \<in> target_keys h t key. h k mod 2 ^ 30 \<noteq> h key mod 2 ^ 30)"
    unfolding tg_def .
qed

text \<open>
  After \<open>Evict\<close> found a victim, \<open>find_replacement\<close> returns it: the page table lost the
  mapping of its page, the replacer is the one \<open>Evict\<close> left, and the other frames are
  as they were.
\<close>

lemma find_replacement_victim:
  assumes inv: "bpm_inv h s" and fl: "free_list s = []"
    and ev: "Evict ev0 (replacer s) = (r2, Some g)" and g: "0 \<le> g" "nat g < pool_size s"
  shows "\<exists>s1. find_replacement h ev0 s = Inr (s1, Some g) \<and> replacer s1 = r2 \<and>
           page_table s1 = fst (Remove_nat h (page_table s) (page_id (frame s g))) \<and>
           next_page_id s1 = next_page_id s \<and> pool_size s1 = pool_size s \<and>
           length (pages s1) = length (pages s) \<and>
           pin_count (frame s1 g) = pin_count (frame s g) \<and>
           (\<forall>f. 0 \<le> f \<and> f \<noteq> g \<longrightarrow> frame s1 f = frame s f)"
proof -
  have len: "nat g < length (pages s)" using g bpm_invD(3)[OF inv] by simp
  show ?thesis
    using g len
    by (auto simp: find_replacement_def fl ev Remove_bpm[OF inv] Let_def frame_set_frame
        ResetPage_def ResetMemory_def split: prod.splits)
qed

text \<open>
  In a pool where no frame is free and every frame is pinned, unpinning a resident page
  with pin count 1 makes its frame the victim of the next \<open>NewPgImp\<close>, which installs
  and pins the new page there.
\<close>

lemma unpin_then_new:
  assumes inv: "bpm_inv h s" and fl: "free_list s = []"
    and pinned: "\<forall>i < pool_size s. 0 < pin_count (pages s ! i)"
    and res: "Find_nat h (page_table s) qid = Some f" and pin1: "pin_count (frame s f) = 1"
    and sep: "\<And>p. Find_nat h (page_table s) p \<noteq> None \<Longrightarrow> p \<noteq> next_page_id s \<Longrightarrow>
                h p mod 2 ^ 30 \<noteq> h (next_page_id s) mod 2 ^ 30"
  shows "\<exists>s' s''. UnpinPgImp h s qid dirty = Some (Inr (s', True)) \<and>
           pin_count (frame s' f) = 0 \<and>
           NewPgImp h ev0 s' = Some (Inr (s'', Some (next_page_id s, f))) \<and>
           page_id (frame s'' f) = next_page_id s \<and> pin_count (frame s'' f) = 1 \<and>
           next_page_id s'' = next_page_id s + 1 \<and>
           (\<forall>p. Find_nat h (page_table s'') p =
                  (if p = next_page_id s then Some f
                   else if p = qid then None else Find_nat h (page_table s) p)) \<and>
           global_depth (page_table s'') < 31 \<and>
           (\<forall>g. 0 \<le> g \<and> g \<noteq> f \<longrightarrow> frame s'' g = frame s g)"
proof -
  note ri = bpm_invD(2)[OF inv]
  from bpm_invD(5)[OF inv res] obtain e where
    f: "0 \<le> f" "nat f < pool_size s" and pq: "page_id (frame s f) = qid"
    and e: "entries (replacer s) f = Some e"
    by auto
  have lenf: "nat f < length (pages s)" using f bpm_invD(3)[OF inv] by simp
  have fle: "f \<le> int (replacer_size (replacer s))"
    using f bpm_invD(4)[OF inv] by simp
  define page2 where "page2 =
     (if dirty then (frame s f)\<lparr>pin_count := pin_count (frame s f) - 1, is_dirty := True\<rparr>
      else (frame s f)\<lparr>pin_count := pin_count (frame s f) - 1\<rparr>)"
  have p0: "pin_count page2 = 0" and pp: "page_id page2 = qid"
    using pin1 pq by (simp_all add: page2_def)
  from SetEvictable_ok[OF ri fle, of True] e obtain r1 where
    r1: "SetEvictable (replacer s) f True = Inr r1" "replacer_inv r1"
      "replacer_size r1 = replacer_size (replacer s)"
      "entries r1 = (entries (replacer s))(f \<mapsto> e\<lparr>is_evictable := True\<rparr>)"
    by auto
  define s' where "s' = (set_frame s f page2)\<lparr>replacer := r1\<rparr>"
  have un: "UnpinPgImp h s qid dirty = Some (Inr (s', True))"
    using res pin1 r1(1)
    by (simp add: UnpinPgImp_def Find_bpm[OF inv] Let_def page2_def s'_def)
  have inv': "bpm_inv h s'" by (rule UnpinPgImp_inv[OF inv un])
  have fr': "frame s' g = (if g = f then page2 else frame s g)" if "0 \<le> g" for g
    using that f lenf by (simp add: s'_def frame_set_frame)
  have pf: "pin_count (frame s' f) = 0" using f p0 by (simp add: fr')
  have same': "page_table s' = page_table s" "free_list s' = []" "next_page_id s' = next_page_id s"
    "pool_size s' = pool_size s" "replacer s' = r1"
    using fl by (simp_all add: s'_def)
  have "entries r1 f = Some (e\<lparr>is_evictable := True\<rparr>)" by (simp add: r1(4))
  from Evict_some[OF r1(2) this, of ev0] obtain g eg r2 where
    ev: "Evict ev0 r1 = (r2, Some g)" and g: "entries r1 g = Some eg" "is_evictable eg"
    and r2: "replacer_inv r2" "replacer_size r2 = replacer_size r1"
      "entries r2 = (entries r1)(g := None)"
    by auto
  have gf: "g = f"
  proof (rule ccontr)
    assume ne: "g \<noteq> f"
    then have "entries (replacer s) g = Some eg" using g(1) by (simp add: r1(4))
    from bpm_invD(6)[OF inv this g(2)]
    have "nat g < pool_size s" "pin_count (pages s ! nat g) = 0" by (simp_all add: frame_def)
    then show False using pinned by fastforce
  qed
  have ev': "Evict ev0 (replacer s') = (r2, Some f)" using ev gf by (simp add: same')
  have f': "0 \<le> f" "nat f < pool_size s'" using f by (simp_all add: same')
  from find_replacement_victim[OF inv' same'(2) ev' f'] obtain s1 where
    fr: "find_replacement h ev0 s' = Inr (s1, Some f)" and s1a: "replacer s1 = r2"
      "page_table s1 = fst (Remove_nat h (page_table s') (page_id (frame s' f)))"
      "next_page_id s1 = next_page_id s'" "pool_size s1 = pool_size s'"
      "length (pages s1) = length (pages s')" "pin_count (frame s1 f) = pin_count (frame s' f)"
    and s1b: "\<forall>g. 0 \<le> g \<and> g \<noteq> f \<longrightarrow> frame s1 g = frame s' g"
    by blast
  have s1: "replacer s1 = r2"
      "page_table s1 = fst (Remove_nat h (page_table s) qid)"
      "next_page_id s1 = next_page_id s" "pool_size s1 = pool_size s"
      "length (pages s1) = length (pages s)" "pin_count (frame s1 f) = 0"
    using s1a f pf by (simp_all add: same' fr' pp) (simp add: s'_def)
  have s1f: "frame s1 g = frame s g" if "0 \<le> g" "g \<noteq> f" for g
    using s1b that by (simp add: fr')
  note ti = bpm_invD(1)[OF inv]
  define pt1 where "pt1 = fst (Remove_nat h (page_table s) qid)"
  have ti1: "table_inv h pt1" unfolding pt1_def by (rule Remove_correct(1)[OF ti])
  have gd1: "global_depth pt1 < 31"
    unfolding pt1_def Remove_nat_depth by (rule bpm_invD(9)[OF inv])
  have bs1: "0 < bucket_size pt1"
    unfolding pt1_def Remove_nat_bucket_size by (rule stored_bucket_size[OF ti res])
  have fnd1: "Find_nat h pt1 p = (if p = qid then None else Find_nat h (page_table s) p)" for p
    unfolding pt1_def by (rule Remove_correct(2)[OF ti])
  define pid where "pid = next_page_id s"
  have sep1: "h p mod 2 ^ 30 \<noteq> h pid mod 2 ^ 30" if "Find_nat h pt1 p \<noteq> None" "p \<noteq> pid" for p
  proof -
    have "Find_nat h (page_table s) p \<noteq> None" using that(1) by (auto simp: fnd1 split: if_splits)
    from sep[OF this] that(2) show ?thesis by (simp add: pid_def)
  qed
  define s2 where "s2 = set_frame (s1\<lparr>next_page_id := next_page_id s1 + 1\<rparr>) f
      ((frame s1 f)\<lparr>page_id := next_page_id s1\<rparr>)"
  have pt2: "page_table s2 = pt1" by (simp add: s2_def s1(2) pt1_def)
  from Insert_separated[OF ti1 gd1 bs1 sep1, of f]
  obtain pt' where ins: "Insert h (page_table s2) pid f = Some (Inr pt')"
    unfolding pt2 by auto
  note ia = Insert_agrees[OF ins[unfolded pt2] ti1 gd1]
  note ic = Insert_correct[OF ia(1) ti1]
  define s2' where "s2' = s2\<lparr>page_table := pt'\<rparr>"
  have ri2: "replacer_inv (replacer s2')" using r2(1) by (simp add: s2'_def s2_def s1(1))
  have le2: "f \<le> int (replacer_size (replacer s2'))"
    using fle by (simp add: s2'_def s2_def s1(1) r2(2) r1(3))
  have fresh: "entries (replacer s2') f = None"
    by (simp add: s2'_def s2_def s1(1) r2(3) gf)
  from record_and_pin_fresh[OF ri2 le2 fresh, of ev0] obtain s3 where
    rp: "record_and_pin ev0 s2' f = Inr s3" by auto
  from record_and_pin_effect[OF ri2 le2 rp] obtain r3 where
    s3: "s3 = set_frame (s2'\<lparr>replacer := r3\<rparr>) f
               ((frame s2' f)\<lparr>pin_count := pin_count (frame s2' f) + 1\<rparr>)"
    by auto
  have ins1: "Insert h (page_table s1) (next_page_id s1) f = Some (Inr pt')"
    using ins by (simp add: s2_def pid_def s1(3))
  have rp1: "record_and_pin ev0
       ((set_frame (s1\<lparr>next_page_id := next_page_id s1 + 1\<rparr>) f
          ((frame s1 f)\<lparr>page_id := next_page_id s1\<rparr>))\<lparr>page_table := pt'\<rparr>) f = Inr s3"
    using rp by (simp add: s2'_def s2_def)
  have new: "NewPgImp h ev0 s' = Some (Inr (s3, Some (next_page_id s, f)))"
    by (simp add: NewPgImp_def fr Let_def ins1 rp1) (simp add: s1(3))
  have len1: "nat f < length (pages s1)" using lenf by (simp add: s1(5))
  have fr2: "frame s2' g = (if g = f then (frame s1 f)\<lparr>page_id := next_page_id s\<rparr> else frame s1 g)"
    if "0 \<le> g" for g
    using that f len1 by (simp add: s2'_def s2_def frame_set_frame s1(3))
  have len2: "nat f < length (pages s2')" using len1 by (simp add: s2'_def s2_def)
  have fr3: "frame s3 g = (if g = f then (frame s2' f)\<lparr>pin_count := pin_count (frame s2' f) + 1\<rparr>
                          else frame s2' g)" if "0 \<le> g" for g
    using that f len2 by (simp add: s3 frame_set_frame)
  have a: "page_id (frame s3 f) = next_page_id s" "pin_count (frame s3 f) = 1"
    using f s1(6) by (simp_all add: fr3 fr2)
  have b: "next_page_id s3 = next_page_id s + 1"
    by (simp add: s3 s2'_def s2_def s1(3))
  have pt3: "page_table s3 = pt'" by (simp add: s3 s2'_def)
  have c: "Find_nat h (page_table s3) p =
             (if p = next_page_id s then Some f
              else if p = qid then None else Find_nat h (page_table s) p)" for p
    unfolding pt3 ic(2) fnd1 by (simp add: pid_def)
  have d: "global_depth (page_table s3) < 31" unfolding pt3 by (rule ia(2))
  have e3: "frame s3 g = frame s g" if "0 \<le> g" "g \<noteq> f" for g
    using that by (simp add: fr3 fr2 s1f)
  show ?thesis
    using un pf new a b c d e3 by blast
qed

lemma pinned_state_run:
  "bpm_run int_hash ev0 (BufferPoolManagerInstance_init 1 2 2 4 example_disk) [OpNew] =
     Some (Inr (pinned_state ev0))"
  by (cases ev0)
     (simp_all add: pinned_state_def drop_result_def NewPgImp_def find_replacement_def
      BufferPoolManagerInstance_init_def ExtendibleHashTable_init_def Bucket_init_def
      LRUKReplacer_init_def Insert_def Insert_loop.simps IndexOf_def shift_left_one_def
      bucket_at_def Bucket_Find_def
      IsFull_def Bucket_Insert_def record_and_pin_def RecordAccess_def SetEvictable_def
      entries_at_def new_entry_def set_frame_def frame_def int_hash_def INVALID_PAGE_ID_def
      Let_def numeral_eq_Suc)

lemma pinned_state_Find:
  "Find int_hash (page_table (pinned_state ev0)) p = Inr (if p = 0 then Some 0 else None)"
  by (simp add: pinned_state_def Find_def IndexOf_def shift_left_one_def bucket_at_def Bucket_Find_def)

subsection \<open>The claim about the exhausted pool\<close>

text \<open>
  C4: in a pool reached from a new pool by calls of the manager (of any size, with any
  \<open>k\<close> of the replacer), in which no frame is free and every frame is pinned,
  \<open>NewPgImp\<close> and \<open>FetchPgImp\<close> of a page id that is not resident return \<open>nullptr\<close> and
  leave the state as it is. After \<open>UnpinPgImp\<close> of a resident page \<open>qid\<close> with pin count 1
  in frame \<open>f\<close>, which returns true and leaves the pin count 0, \<open>NewPgImp\<close> returns the
  new page id \<open>next_page_id\<close> in frame \<open>f\<close>: the frame carries the new page id with pin
  count 1, the page table maps the new id to \<open>f\<close> and no longer holds \<open>qid\<close>, the other
  mappings and the other frames are as they were, and the allocator has advanced. The
  page table's \<open>Insert\<close> must not overflow for this: no resident page id agrees with the
  new one on the low 30 bits of its hash value (with the identity hash, this holds for
  page ids in \<open>[0, 2^30)\<close>).
\<close>

theorem C4_pool_exhausted:
  "bpm_run h ev0 (BufferPoolManagerInstance_init n k bsz pb d) ops = Some (Inr s) \<and>
   free_list s = [] \<and> (\<forall>i < pool_size s. 0 < pin_count (pages s ! i)) \<Longrightarrow>
   NewPgImp h ev0 s = Some (Inr (s, None)) \<and>
   (Find h (page_table s) pid = Inr None \<longrightarrow> FetchPgImp h ev0 s pid = Some (Inr (s, None))) \<and>
   (Find h (page_table s) qid = Inr (Some f) \<and> pin_count (frame s f) = 1 \<and>
    (\<forall>p. Find h (page_table s) p \<noteq> Inr None \<and> p \<noteq> next_page_id s \<longrightarrow>
         h p mod 2 ^ 30 \<noteq> h (next_page_id s) mod 2 ^ 30) \<longrightarrow>
      (\<exists>s' s''. UnpinPgImp h s qid dirty = Some (Inr (s', True)) \<and>
           pin_count (frame s' f) = 0 \<and>
           NewPgImp h ev0 s' = Some (Inr (s'', Some (next_page_id s, f))) \<and>
           page_id (frame s'' f) = next_page_id s \<and> pin_count (frame s'' f) = 1 \<and>
           next_page_id s'' = next_page_id s + 1 \<and>
           (\<forall>p. Find h (page_table s'') p =
                  (if p = next_page_id s then Inr (Some f)
                   else if p = qid then Inr None else Find h (page_table s) p)) \<and>
           (\<forall>g. 0 \<le> g \<and> g \<noteq> f \<longrightarrow> frame s'' g = frame s g)))"
proof (intro conjI impI)
  assume a: "bpm_run h ev0 (BufferPoolManagerInstance_init n k bsz pb d) ops = Some (Inr s) \<and>
   free_list s = [] \<and> (\<forall>i < pool_size s. 0 < pin_count (pages s ! i))"
  then have inv: "bpm_inv h s" using bpm_run_inv[OF bpm_inv_init] by blast
  from a have fl: "free_list s = []"
    and pinned: "\<forall>i < pool_size s. 0 < pin_count (pages s ! i)" by auto
  note fr = find_replacement_exhausted[OF inv fl pinned]
  note fb = Find_bpm[OF inv]
  show "NewPgImp h ev0 s = Some (Inr (s, None))" by (simp add: NewPgImp_def fr)
  show "FetchPgImp h ev0 s pid = Some (Inr (s, None))" if "Find h (page_table s) pid = Inr None"
    using that by (simp add: FetchPgImp_def fr)
  show "\<exists>s' s''. UnpinPgImp h s qid dirty = Some (Inr (s', True)) \<and>
           pin_count (frame s' f) = 0 \<and>
           NewPgImp h ev0 s' = Some (Inr (s'', Some (next_page_id s, f))) \<and>
           page_id (frame s'' f) = next_page_id s \<and> pin_count (frame s'' f) = 1 \<and>
           next_page_id s'' = next_page_id s + 1 \<and>
           (\<forall>p. Find h (page_table s'') p =
                  (if p = next_page_id s then Inr (Some f)
                   else if p = qid then Inr None else Find h (page_table s) p)) \<and>
           (\<forall>g. 0 \<le> g \<and> g \<noteq> f \<longrightarrow> frame s'' g = frame s g)"
    if h3: "Find h (page_table s) qid = Inr (Some f) \<and> pin_count (frame s f) = 1 \<and>
    (\<forall>p. Find h (page_table s) p \<noteq> Inr None \<and> p \<noteq> next_page_id s \<longrightarrow>
         h p mod 2 ^ 30 \<noteq> h (next_page_id s) mod 2 ^ 30)"
  proof -
    from h3 have res: "Find_nat h (page_table s) qid = Some f"
      and pin1: "pin_count (frame s f) = 1"
      and sep: "\<And>p. Find_nat h (page_table s) p \<noteq> None \<Longrightarrow> p \<noteq> next_page_id s \<Longrightarrow>
                h p mod 2 ^ 30 \<noteq> h (next_page_id s) mod 2 ^ 30"
      by (simp_all add: fb)
    from unpin_then_new[OF inv fl pinned res pin1 sep, of dirty ev0]
    obtain s' s'' where u: "UnpinPgImp h s qid dirty = Some (Inr (s', True))"
      "pin_count (frame s' f) = 0"
      "NewPgImp h ev0 s' = Some (Inr (s'', Some (next_page_id s, f)))"
      "page_id (frame s'' f) = next_page_id s" "pin_count (frame s'' f) = 1"
      "next_page_id s'' = next_page_id s + 1"
      "\<And>p. Find_nat h (page_table s'') p =
                  (if p = next_page_id s then Some f
                   else if p = qid then None else Find_nat h (page_table s) p)"
      "global_depth (page_table s'') < 31"
      "\<And>g. 0 \<le> g \<and> g \<noteq> f \<longrightarrow> frame s'' g = frame s g"
      by blast
    have "Find h (page_table s'') p =
                  (if p = next_page_id s then Inr (Some f)
                   else if p = qid then Inr None else Find h (page_table s) p)" for p
      using u(8) bpm_invD(9)[OF inv] by (simp add: Find_eq u(7))
    with u show ?thesis by blast
  qed
qed

theorem C4_pool_exhausted_witness:
  "bpm_run int_hash True (BufferPoolManagerInstance_init 1 2 2 4 example_disk) [OpNew] =
     Some (Inr (pinned_state True)) \<and>
   free_list (pinned_state True) = [] \<and>
   pool_size (pinned_state True) = 1 \<and> 0 < pin_count (pages (pinned_state True) ! 0) \<and>
   NewPgImp int_hash True (pinned_state True) = Some (Inr (pinned_state True, None)) \<and>
   Find int_hash (page_table (pinned_state True)) 5 = Inr None \<and>
   FetchPgImp int_hash True (pinned_state True) 5 = Some (Inr (pinned_state True, None)) \<and>
   Find int_hash (page_table (pinned_state True)) 0 = Inr (Some 0) \<and>
   pin_count (frame (pinned_state True) 0) = 1 \<and>
   next_page_id (pinned_state True) = 1 \<and>
   (\<exists>s' s''. UnpinPgImp int_hash (pinned_state True) 0 False = Some (Inr (s', True)) \<and>
       pin_count (frame s' 0) = 0 \<and>
       NewPgImp int_hash True s' = Some (Inr (s'', Some (1, 0))) \<and>
       page_id (frame s'' 0) = 1 \<and> pin_count (frame s'' 0) = 1 \<and> next_page_id s'' = 2 \<and>
       Find int_hash (page_table s'') 1 = Inr (Some 0) \<and>
       Find int_hash (page_table s'') 0 = Inr None)"
proof -
  have h1: "free_list (pinned_state True) = []" by (simp add: pinned_state_def)
  have h2: "\<forall>i < pool_size (pinned_state True). 0 < pin_count (pages (pinned_state True) ! i)"
    by (simp add: pinned_state_def)
  have h6: "pin_count (frame (pinned_state True) 0) = 1" by (simp add: pinned_state_def frame_def)
  have h8: "next_page_id (pinned_state True) = 1" by (simp add: pinned_state_def)
  have hyp: "bpm_run int_hash True (BufferPoolManagerInstance_init 1 2 2 4 example_disk) [OpNew] =
       Some (Inr (pinned_state True)) \<and>
     free_list (pinned_state True) = [] \<and>
     (\<forall>i < pool_size (pinned_state True). 0 < pin_count (pages (pinned_state True) ! i))"
    using pinned_state_run[of True] h1 h2 by simp
  have h7: "pool_size (pinned_state True) = 1 \<and> 0 < pin_count (pages (pinned_state True) ! 0)"
    by (simp add: pinned_state_def)
  have pre: "Find int_hash (page_table (pinned_state True)) 0 = Inr (Some 0) \<and>
     pin_count (frame (pinned_state True) 0) = 1 \<and>
     (\<forall>p. Find int_hash (page_table (pinned_state True)) p \<noteq> Inr None \<and>
                p \<noteq> next_page_id (pinned_state True) \<longrightarrow>
         int_hash p mod 2 ^ 30 \<noteq> int_hash (next_page_id (pinned_state True)) mod 2 ^ 30)"
    using h6 by (simp add: pinned_state_Find h8 int_hash_def)
  note c4 = C4_pool_exhausted [OF hyp, of 5 0 0 False]
  have n1: "NewPgImp int_hash True (pinned_state True) = Some (Inr (pinned_state True, None))"
    using c4 by (rule conjunct1)
  have n2: "FetchPgImp int_hash True (pinned_state True) 5 = Some (Inr (pinned_state True, None))"
    using c4 by (simp add: pinned_state_Find)
  from c4 pre obtain s' s'' where
    u: "UnpinPgImp int_hash (pinned_state True) 0 False = Some (Inr (s', True))"
      "pin_count (frame s' 0) = 0"
      "NewPgImp int_hash True s' = Some (Inr (s'', Some (next_page_id (pinned_state True), 0)))"
      "page_id (frame s'' 0) = next_page_id (pinned_state True)" "pin_count (frame s'' 0) = 1"
      "next_page_id s'' = next_page_id (pinned_state True) + 1"
      "\<forall>p. Find int_hash (page_table s'') p =
                  (if p = next_page_id (pinned_state True) then Inr (Some 0)
                   else if p = 0 then Inr None
                        else Find int_hash (page_table (pinned_state True)) p)"
    by blast
  have f1: "Find int_hash (page_table s'') 1 = Inr (Some 0)"
    using spec[OF u(7), of 1] by (simp add: h8)
  have f0: "Find int_hash (page_table s'') 0 = Inr None"
    using spec[OF u(7), of 0] by (simp add: h8)
  have "\<exists>s' s''. UnpinPgImp int_hash (pinned_state True) 0 False = Some (Inr (s', True)) \<and>
       pin_count (frame s' 0) = 0 \<and>
       NewPgImp int_hash True s' = Some (Inr (s'', Some (1, 0))) \<and>
       page_id (frame s'' 0) = 1 \<and> pin_count (frame s'' 0) = 1 \<and> next_page_id s'' = 2 \<and>
       Find int_hash (page_table s'') 1 = Inr (Some 0) \<and>
       Find int_hash (page_table s'') 0 = Inr None"
    using u(1-6) f1 f0 unfolding h8 by (intro exI[of _ s'] exI[of _ s'']) simp
  then show ?thesis
    using hyp h7 n1 n2 h6 h8 by (simp add: pinned_state_Find)
qed

section \<open>Verified properties: B+ tree\<close>

lemma descend_missing:
  "tree_pages t cur = None \<Longrightarrow>
   descend t key op is_first cur prev_null ps = Some (Inl (BadFetch cur))"
  by (subst descend.simps) (simp add: FetchPage_def)

lemma descend_leaf:
  "tree_pages t cur = Some (Leaf l) \<Longrightarrow> IsSafe (Leaf l) op \<or> \<not> is_first \<Longrightarrow>
   descend t key op is_first cur prev_null ps =
     Some (Inr (cur, if op = FIND then ps
                      else if \<not> is_first then (if IsSafe (Leaf l) op then [] else ps) @ [Some cur]
                      else ps @ [Some cur]))"
  by (subst descend.simps) (auto simp add: FetchPage_def)

lemma descend_leaf_restart:
  "tree_pages t cur = Some (Leaf l) \<Longrightarrow> \<not> IsSafe (Leaf l) op \<Longrightarrow>
   descend t key op True cur prev_null ps = descend t key op False (root_page_id t) True [None]"
  by (subst descend.simps) (auto simp add: FetchPage_def)

text \<open>
  Claim C9. On the empty tree \<open>GetValue\<close> and \<open>Remove\<close> should return without fetching a
  page. The code does not: \<open>GetLeafPage\<close> guards only the insertion, so both calls start
  their descent with \<open>FetchPage\<close> on the invalid page id.
\<close>

theorem C9_empty_tree_fetches_invalid_page:
  "GetValue (BPlusTree_init name lm im cap k0) txn key = Some (Inl (BadFetch INVALID_PAGE_ID)) \<and>
   BPlusTree_Remove (BPlusTree_init name lm im cap k0) txn key =
     Some (Inl (BadFetch INVALID_PAGE_ID))"
  by (simp add: GetValue_def BPlusTree_Remove_def GetLeafPage_def descend_missing
      BPlusTree_init_def IsEmpty_def)

text \<open>
  Claim C8. The root page id of the header page should follow every change of the root.
  The code does not do so when \<open>Remove\<close> empties the root leaf: after inserting one key
  and removing it the tree's root page id is invalid and the header page still records
  page 1.
\<close>

theorem C8_header_keeps_removed_root:
  "root_ids_after (BPlusTree_init name 4 im cap k0) [TInsert k v, TRemove k] =
     Some (Inr (INVALID_PAGE_ID, Some 1))"
  apply (simp add: root_ids_after_def BPlusTree_Insert_def GetLeafPage_def
      BPlusTree_init_def IsEmpty_def start_new_tree_def UpdateRootPageId_def write_page_def
      Leaf_Init_def INVALID_PAGE_ID_def Transaction_init_def)
  apply (simp add: descend_leaf IsSafe_def FetchPage_def then_do_def Leaf_Insert_def
      Leaf_LowerBound_def UnlockPageSet_def write_page_def)
  apply (simp add: BPlusTree_Remove_def GetLeafPage_def IsEmpty_def Transaction_init_def
      descend_leaf descend_leaf_restart Let_def IsSafe_def FetchPage_def then_do_def
      Leaf_Remove_def Leaf_LowerBound_def UnlockPageSet_def write_page_def IsRootPage_def
      INVALID_PAGE_ID_def)
  done

text \<open>
  Claim C1. \<open>GetValue\<close> should report a key that is not stored as absent. Once the last
  key has been removed the tree is empty again, and there the code does not answer: the
  lookup of any key fetches the invalid page id.
\<close>

theorem C1_lookup_after_last_removal:
  "GetValue_after (BPlusTree_init name 4 im cap k0) [TInsert k v, TRemove k] key =
     Some (Inl (BadFetch INVALID_PAGE_ID))"
  apply (simp add: GetValue_after_def BPlusTree_Insert_def GetLeafPage_def
      BPlusTree_init_def IsEmpty_def start_new_tree_def UpdateRootPageId_def write_page_def
      Leaf_Init_def INVALID_PAGE_ID_def Transaction_init_def)
  apply (simp add: descend_leaf IsSafe_def FetchPage_def then_do_def Leaf_Insert_def
      Leaf_LowerBound_def UnlockPageSet_def write_page_def)
  apply (simp add: BPlusTree_Remove_def GetLeafPage_def IsEmpty_def Transaction_init_def
      descend_leaf descend_leaf_restart Let_def IsSafe_def FetchPage_def then_do_def
      Leaf_Remove_def Leaf_LowerBound_def UnlockPageSet_def write_page_def IsRootPage_def
      INVALID_PAGE_ID_def)
  apply (simp add: GetValue_def GetLeafPage_def descend_missing)
  done


end
